theory Spec2Isabelle
  imports Complex_Main "HOL-Library.Sublist"
begin

section \<open>Python values, exceptions and indexing\<close>

text \<open>
  The importer (\<^verbatim>\<open>blender/imp/gltf2_blender_node.py\<close>) and the specular exporter
  (\<^verbatim>\<open>blender/exp/gltf2_blender_gather_materials_specular.py\<close>) are Python. An exception
  is a value of \<open>error\<close>; a function that can raise returns \<open>error + 'a\<close> with \<open>Inl\<close>
  the exception. Python floats are modelled as the reals.
\<close>

datatype error =
  KeyError | IndexError | TypeError | AttributeError | AssertionError | ZeroDivisionError
  | HostError string

text \<open>
  The subscript \<^verbatim>\<open>xs[i]\<close> of a Python list: positions \<open>0 .. len - 1\<close> are read directly,
  positions \<open>- len .. - 1\<close> are read from the end, any other position raises.
\<close>

definition py_index :: "'a list \<Rightarrow> int \<Rightarrow> error + 'a" where
  "py_index xs i =
     (if 0 \<le> i \<and> i < int (length xs) then Inr (xs ! nat i)
      else if i < 0 \<and> - int (length xs) \<le> i then Inr (xs ! nat (int (length xs) + i))
      else Inl IndexError)"

text \<open>\<^verbatim>\<open>xs[i]\<close> where \<^verbatim>\<open>i\<close> may be \<^verbatim>\<open>None\<close> (a \<^verbatim>\<open>TypeError\<close>).\<close>

definition py_index_opt :: "'a list \<Rightarrow> int option \<Rightarrow> error + 'a" where
  "py_index_opt xs io = (case io of None \<Rightarrow> Inl TypeError | Some i \<Rightarrow> py_index xs i)"

text \<open>\<^verbatim>\<open>name or default\<close> on an optional string: \<^verbatim>\<open>None\<close> and the empty string are falsy.\<close>

definition name_or :: "string option \<Rightarrow> string \<Rightarrow> string" where
  "name_or n d = (case n of None \<Rightarrow> d | Some s \<Rightarrow> if s = [] then d else s)"

section \<open>Vectors, quaternions and matrices (mathutils)\<close>

type_synonym vec3 = "real \<times> real \<times> real"
type_synonym quat = "real \<times> real \<times> real \<times> real"
type_synonym row4 = "real \<times> real \<times> real \<times> real"
type_synonym mat4 = "row4 \<times> row4 \<times> row4 \<times> row4"

fun vadd :: "vec3 \<Rightarrow> vec3 \<Rightarrow> vec3" where
  "vadd (a, b, c) (x, y, z) = (a + x, b + y, c + z)"

fun vsub :: "vec3 \<Rightarrow> vec3 \<Rightarrow> vec3" where
  "vsub (a, b, c) (x, y, z) = (a - x, b - y, c - z)"

fun vscale :: "real \<Rightarrow> vec3 \<Rightarrow> vec3" where
  "vscale k (x, y, z) = (k * x, k * y, k * z)"

fun vdot :: "vec3 \<Rightarrow> vec3 \<Rightarrow> real" where
  "vdot (a, b, c) (x, y, z) = a * x + b * y + c * z"

text \<open>\<^verbatim>\<open>Vector.length\<close>\<close>

fun vlength :: "vec3 \<Rightarrow> real" where
  "vlength (x, y, z) = sqrt (x * x + y * y + z * z)"

text \<open>\<^verbatim>\<open>Quaternion.conjugated()\<close>; components are (w, x, y, z).\<close>

fun conjugated :: "quat \<Rightarrow> quat" where
  "conjugated (w, x, y, z) = (w, - x, - y, - z)"

text \<open>\<^verbatim>\<open>Quaternion @ Quaternion\<close>: the Hamilton product.\<close>

fun qmul :: "quat \<Rightarrow> quat \<Rightarrow> quat" where
  "qmul (a0, a1, a2, a3) (b0, b1, b2, b3) =
     (a0 * b0 - a1 * b1 - a2 * b2 - a3 * b3,
      a0 * b1 + a1 * b0 + a2 * b3 - a3 * b2,
      a0 * b2 + a2 * b0 + a3 * b1 - a1 * b3,
      a0 * b3 + a3 * b0 + a1 * b2 - a2 * b1)"

text \<open>
  \<^verbatim>\<open>Quaternion @ Vector\<close>: the vector part of \<open>q * (0, v) * conjugated q\<close>, computed in the
  two steps of mathutils' \<^verbatim>\<open>mul_qt_v3\<close> (no normalisation of \<open>q\<close>).
\<close>

fun qrot :: "quat \<Rightarrow> vec3 \<Rightarrow> vec3" where
  "qrot (q0, q1, q2, q3) (r0, r1, r2) =
     (let t0 = - q1 * r0 - q2 * r1 - q3 * r2;
          t1 = q0 * r0 + q2 * r2 - q3 * r1;
          t2 = q0 * r1 + q3 * r0 - q1 * r2;
          t3 = q0 * r2 + q1 * r1 - q2 * r0
      in (t0 * - q1 + t1 * q0 - t2 * q3 + t3 * q2,
          t0 * - q2 + t2 * q0 - t3 * q1 + t1 * q3,
          t0 * - q3 + t3 * q0 - t1 * q2 + t2 * q1))"

definition qnorm2 :: "quat \<Rightarrow> real" where
  "qnorm2 q = (case q of (w, x, y, z) \<Rightarrow> w * w + x * x + y * y + z * z)"

text \<open>
  \<^verbatim>\<open>Matrix @ Vector\<close> for a 4x4 matrix (given by rows) and a 3D vector: the vector is
  extended by \<open>w = 1\<close> and the first three components of the product are returned.
\<close>

fun mat_vec3 :: "mat4 \<Rightarrow> vec3 \<Rightarrow> vec3" where
  "mat_vec3 ((m00, m01, m02, m03), (m10, m11, m12, m13), (m20, m21, m22, m23), r3) (x, y, z) =
     (m00 * x + m01 * y + m02 * z + m03,
      m10 * x + m11 * y + m12 * z + m13,
      m20 * x + m21 * y + m22 * z + m23)"

section \<open>The specular exporter: base colour normalisation\<close>

text \<open>
  \<^verbatim>\<open>normalize\<close>, the local function of \<^verbatim>\<open>export_specular\<close>'s untextured branch. A division
  is checked: dividing by zero is the exception \<open>ZeroDivisionError\<close>.
\<close>

definition py_div :: "real \<Rightarrow> real \<Rightarrow> error + real" where
  "py_div a b = (if b = 0 then Inl ZeroDivisionError else Inr (a / b))"

definition luminance :: "real list \<Rightarrow> real" where
  "luminance c = 0.3 * c ! 0 + 0.6 * c ! 1 + 0.1 * c ! 2"

definition normalize_color :: "real list \<Rightarrow> error + real list" where
  "normalize_color c =
     (if length c \<noteq> 3 then Inl AssertionError
      else let l = luminance c in
        if l = 0 then Inr c
        else (case py_div (c ! 0) l of Inl e \<Rightarrow> Inl e | Inr x \<Rightarrow>
             (case py_div (c ! 1) l of Inl e \<Rightarrow> Inl e | Inr y \<Rightarrow>
             (case py_div (c ! 2) l of Inl e \<Rightarrow> Inl e | Inr z \<Rightarrow> Inr [x, y, z]))))"

section \<open>The importer's data\<close>

text \<open>
  A virtual node id is a glTF node index or a synthetic key (the dummy root, a synthesized
  armature); \<^verbatim>\<open>isinstance(vnode_id, int)\<close> is the test for \<open>NodeIdx\<close>.
\<close>

datatype vnode_id = NodeIdx int | Synthetic string

datatype vnode_type = Object | Bone | DummyRoot

text \<open>
  The fields of \<^verbatim>\<open>VNode\<close> that \<^verbatim>\<open>gltf2_blender_node.py\<close> reads or writes. \<^verbatim>\<open>vnode.trs()\<close>
  returns the three fields \<open>trans\<close>, \<open>rot\<close>, \<open>scale\<close>. A Blender object is referred to by
  its handle, the position at which it was created in \<open>objects\<close>.
\<close>

record vnode =
  name :: "string option"
  default_name :: string
  type :: vnode_type
  is_arma :: bool
  arma_name :: string
  parent :: "vnode_id option"
  children :: "vnode_id list"
  mesh_node_idx :: "int option"
  camera_node_idx :: "int option"
  light_node_idx :: "int option"
  trans :: vec3
  rot :: quat
  scale :: vec3
  bone_arma :: "vnode_id option"
  bone_length :: real
  editbone_arma_mat :: mat4
  editbone_trans :: vec3
  editbone_rot :: quat
  blender_object :: "nat option"
  blender_bone_name :: "string option"

text \<open>The cache key of \<^verbatim>\<open>create_mesh_object\<close>: the tuple \<^verbatim>\<open>(skin,)\<close> or \<^verbatim>\<open>(skin, weights)\<close>.\<close>

datatype cache_key = KeySkin "int option" | KeySkinWeights "int option" "real list"

record pynode =
  mesh :: "int option"
  skin :: "int option"
  camera :: "int option"
  light :: "int option"
  weights :: "real list option"
  weight_animation :: bool

record pymesh =
  mesh_name :: "string option"
  shapekey_names :: "string option list"
  mesh_weights :: "real list option"
  blender_name :: "cache_key \<Rightarrow> nat option"

record pyskin =
  joints :: "int list"

subsection \<open>Blender's data\<close>

record key_block =
  slider_min :: real
  slider_max :: real
  kb_value :: real

record blender_mesh =
  bm_name :: string
  key_blocks :: "string \<Rightarrow> key_block option"

record edit_bone =
  eb_name :: string
  use_connect :: bool
  head :: vec3
  tail :: vec3
  align_roll :: vec3
  eb_parent :: "string option"

text \<open>
  An edit bone of Blender stores its head and its tail and no length. Reading
  \<^verbatim>\<open>editbone.length\<close> gives the distance from the head to the tail, and assigning it
  (\<^verbatim>\<open>rna_EditBone_length_set\<close>) moves the tail: the vector from the head to the tail is
  normalised by \<^verbatim>\<open>normalize_v3\<close>, which returns its length and gives the zero vector and
  length 0 for a vector whose square is at most \<open>1e-35\<close>; for length 0 the direction is
  \<open>(0, 0, 1)\<close>; the new tail is the head plus the direction times the assigned length. The
  property has the range from 0, and an assigned value below it is clamped to 0.
\<close>

definition normalize_v3 :: "vec3 \<Rightarrow> real \<times> vec3" where
  "normalize_v3 a =
     (let d = vdot a a
      in if d > 1 / 10 ^ 35 then (sqrt d, vscale (1 / sqrt d) a) else (0, (0, 0, 0)))"

definition eb_length :: "edit_bone \<Rightarrow> real" where
  "eb_length eb = vlength (vsub (tail eb) (head eb))"

definition set_length :: "real \<Rightarrow> edit_bone \<Rightarrow> edit_bone" where
  "set_length l eb =
     (case normalize_v3 (vsub (tail eb) (head eb)) of
        (d, delta) \<Rightarrow>
          (let delta1 = (if d = 0 then (case delta of (x, y, z) \<Rightarrow> (x, y, 1)) else delta)
           in eb\<lparr>tail := vadd (head eb) (vscale (max 0 l) delta1)\<rparr>))"

text \<open>
  Leaving edit mode (\<^verbatim>\<open>ED_armature_from_edit\<close>) removes the bones of zero size, those with
  the square of the distance from head to tail at most \<open>0.000001\<close> squared, in the order of
  the list; the bones whose parent is a removed bone get the parent of the removed bone.
\<close>

definition zero_sized :: "edit_bone \<Rightarrow> bool" where
  "zero_sized eb =
     (let d = vsub (tail eb) (head eb) in vdot d d \<le> (1 / 10 ^ 6) * (1 / 10 ^ 6))"

definition reparent :: "edit_bone \<Rightarrow> edit_bone \<Rightarrow> edit_bone" where
  "reparent e f = (if eb_parent f = Some (eb_name e) then f\<lparr>eb_parent := eb_parent e\<rparr> else f)"

function from_edit :: "edit_bone list \<Rightarrow> edit_bone list \<Rightarrow> edit_bone list" where
  "from_edit kept [] = kept"
| "from_edit kept (e # rest) =
     (if zero_sized e then from_edit (map (reparent e) kept) (map (reparent e) rest)
      else from_edit (kept @ [e]) rest)"
  by pat_completeness auto
termination by (relation "measure (\<lambda>(kept, rest). length rest)") simp_all

record pose_bone =
  pb_location :: vec3
  pb_rotation_quaternion :: quat
  pb_scale :: vec3

datatype obj_data =
  NoData | MeshData nat | CameraData string | LightData string | ArmatureData string

record blender_obj =
  obj_name :: string
  obj_data :: obj_data
  location :: vec3
  rotation_quaternion :: quat
  obj_scale :: vec3
  obj_parent :: "nat option"
  parent_type :: string
  parent_bone :: "string option"
  empty_display_size :: real
  modifiers :: "nat option list"
  edit_bones :: "edit_bone list"
  pose_bones :: "string \<Rightarrow> pose_bone option"

text \<open>
  The collaborators whose code is in other modules: \<^verbatim>\<open>BlenderCamera.create\<close> and
  \<^verbatim>\<open>BlenderLight.create\<close> return the name of the new datablock, \<^verbatim>\<open>BlenderMesh.create\<close>
  (given the mesh and skin indices) the new mesh; each may raise. They are parameters of
  the model. \<^verbatim>\<open>import_user_extensions\<close> and \<^verbatim>\<open>set_extras\<close> are taken to do nothing.
\<close>

record host =
  camera_create :: "int option \<Rightarrow> error + string"
  light_create :: "int option \<Rightarrow> error + string"
  mesh_create :: "int \<Rightarrow> int option \<Rightarrow> error + blender_mesh"

text \<open>
  The importer's state \<^verbatim>\<open>gltf\<close> together with Blender's: \<open>nodes\<close>, \<open>meshes\<close>, \<open>skins\<close>
  are the arrays of \<^verbatim>\<open>gltf.data\<close>; \<open>objects\<close> is \<^verbatim>\<open>bpy.data.objects\<close>, \<open>bmeshes\<close> is
  \<^verbatim>\<open>bpy.data.meshes\<close> (a mesh is named by its position, Blender's names being unique),
  \<open>scene_objects\<close> the objects linked into the scene's collection.
\<close>

record gltf =
  vnodes :: "vnode_id \<Rightarrow> vnode option"
  nodes :: "pynode list"
  meshes :: "pymesh list"
  skins :: "pyskin list"
  display_current_node :: int
  objects :: "blender_obj list"
  bmeshes :: "blender_mesh list"
  scene_objects :: "nat list"
  ext :: host

text \<open>\<^verbatim>\<open>gltf.vnodes[id]\<close>\<close>

definition get_vnode :: "gltf \<Rightarrow> vnode_id \<Rightarrow> error + vnode" where
  "get_vnode g vid = (case vnodes g vid of None \<Rightarrow> Inl KeyError | Some v \<Rightarrow> Inr v)"

text \<open>\<^verbatim>\<open>gltf.vnodes[id]\<close> where \<^verbatim>\<open>id\<close> may be \<^verbatim>\<open>None\<close>, which is no key of the dictionary.\<close>

definition get_vnode_opt :: "gltf \<Rightarrow> vnode_id option \<Rightarrow> error + vnode" where
  "get_vnode_opt g io = (case io of None \<Rightarrow> Inl KeyError | Some vid \<Rightarrow> get_vnode g vid)"

text \<open>\<^verbatim>\<open>bpy.data.objects.new(name, data)\<close>: the new object, with Blender's defaults.\<close>

definition new_obj :: "string \<Rightarrow> obj_data \<Rightarrow> blender_obj" where
  "new_obj n d =
     \<lparr>obj_name = n, obj_data = d, location = (0, 0, 0), rotation_quaternion = (1, 0, 0, 0),
      obj_scale = (1, 1, 1), obj_parent = None, parent_type = ''OBJECT'', parent_bone = None,
      empty_display_size = 1, modifiers = [], edit_bones = [], pose_bones = (\<lambda>_. None)\<rparr>"

definition objects_new :: "gltf \<Rightarrow> string \<Rightarrow> obj_data \<Rightarrow> gltf \<times> nat" where
  "objects_new g n d = (g\<lparr>objects := objects g @ [new_obj n d]\<rparr>, length (objects g))"

text \<open>Assignment to the attributes of the object with handle \<open>h\<close>.\<close>

definition upd_obj :: "nat \<Rightarrow> (blender_obj \<Rightarrow> blender_obj) \<Rightarrow> gltf \<Rightarrow> gltf" where
  "upd_obj h f g = g\<lparr>objects := (objects g)[h := f (objects g ! h)]\<rparr>"

text \<open>Assignment to the attributes of the virtual node \<open>vid\<close>.\<close>

definition upd_vnode :: "vnode_id \<Rightarrow> (vnode \<Rightarrow> vnode) \<Rightarrow> gltf \<Rightarrow> gltf" where
  "upd_vnode vid f g =
     (case vnodes g vid of None \<Rightarrow> g | Some v \<Rightarrow> g\<lparr>vnodes := (vnodes g)(vid \<mapsto> f v)\<rparr>)"

section \<open>\<^verbatim>\<open>calc_empty_display_size\<close>\<close>

text \<open>The loop that fills \<^verbatim>\<open>sizes\<close>.\<close>

fun sizes_of :: "gltf \<Rightarrow> vnode_id list \<Rightarrow> error + real list" where
  "sizes_of g [] = Inr []"
| "sizes_of g (vid # vids) =
     (case get_vnode g vid of Inl e \<Rightarrow> Inl e | Inr vn \<Rightarrow>
      (case sizes_of g vids of Inl e \<Rightarrow> Inl e | Inr ss \<Rightarrow>
         Inr (vlength (trans vn) * 0.4 # ss)))"

text \<open>\<^verbatim>\<open>min(sizes, default=1)\<close>\<close>

definition min_default :: "real list \<Rightarrow> real \<Rightarrow> real" where
  "min_default xs d = (case xs of [] \<Rightarrow> d | x # ys \<Rightarrow> fold min ys x)"

definition calc_empty_display_size :: "gltf \<Rightarrow> vnode_id \<Rightarrow> error + real" where
  "calc_empty_display_size g vnode_id =
     (case get_vnode g vnode_id of Inl e \<Rightarrow> Inl e | Inr vn \<Rightarrow>
      (case sizes_of g (vnode_id # children vn) of Inl e \<Rightarrow> Inl e | Inr sizes \<Rightarrow>
         Inr (max (min_default sizes 1) 0.001)))"

section \<open>\<^verbatim>\<open>create_mesh_object\<close> and its helpers\<close>

text \<open>An object by its handle; a handle that names no object is a host error.\<close>

definition get_obj :: "gltf \<Rightarrow> nat \<Rightarrow> error + blender_obj" where
  "get_obj g h =
     (if h < length (objects g) then Inr (objects g ! h) else Inl (HostError ''ReferenceError''))"

text \<open>\<^verbatim>\<open>bpy.data.meshes[name]\<close>\<close>

definition get_bmesh :: "gltf \<Rightarrow> nat \<Rightarrow> error + blender_mesh" where
  "get_bmesh g m = (if m < length (bmeshes g) then Inr (bmeshes g ! m) else Inl KeyError)"

text \<open>\<^verbatim>\<open>a or b or []\<close> on optional lists: \<^verbatim>\<open>None\<close> and the empty list are falsy.\<close>

definition list_or :: "'a list option \<Rightarrow> 'a list \<Rightarrow> 'a list" where
  "list_or a b = (case a of None \<Rightarrow> b | Some xs \<Rightarrow> if xs = [] then b else xs)"

text \<open>The body of the loop of \<^verbatim>\<open>set_morph_weights\<close> on a key block.\<close>

definition set_kb :: "real \<Rightarrow> key_block \<Rightarrow> key_block" where
  "set_kb w kb =
     (let kb1 = (if w < slider_min kb then kb\<lparr>slider_min := w\<rparr> else kb);
          kb2 = (if w > slider_max kb1 then kb1\<lparr>slider_max := w\<rparr> else kb1)
      in kb2\<lparr>kb_value := w\<rparr>)"

fun morph_loop :: "gltf \<Rightarrow> pymesh \<Rightarrow> nat \<Rightarrow> nat \<Rightarrow> real list \<Rightarrow> error + gltf" where
  "morph_loop g pm m i [] = Inr g"
| "morph_loop g pm m i (w # ws) =
     (case py_index (shapekey_names pm) (int i) of Inl e \<Rightarrow> Inl e
      | Inr None \<Rightarrow> morph_loop g pm m (Suc i) ws
      | Inr (Some nm) \<Rightarrow>
          (case get_bmesh g m of Inl e \<Rightarrow> Inl e | Inr me \<Rightarrow>
           (case key_blocks me nm of None \<Rightarrow> Inl KeyError
            | Some kb \<Rightarrow>
                morph_loop
                  (g\<lparr>bmeshes := (bmeshes g)[m := me\<lparr>key_blocks := (key_blocks me)(nm \<mapsto> set_kb w kb)\<rparr>]\<rparr>)
                  pm m (Suc i) ws)))"

definition set_morph_weights :: "gltf \<Rightarrow> pynode \<Rightarrow> nat \<Rightarrow> error + gltf" where
  "set_morph_weights g pn obj =
     (case py_index_opt (meshes g) (mesh pn) of Inl e \<Rightarrow> Inl e | Inr pm \<Rightarrow>
      (case get_obj g obj of Inl e \<Rightarrow> Inl e | Inr ob \<Rightarrow>
       (let ws = list_or (weights pn) (list_or (mesh_weights pm) []) in
        case obj_data ob of
          MeshData m \<Rightarrow> morph_loop g pm m 0 ws
        | _ \<Rightarrow> (if ws = [] then Inr g else Inl AttributeError))))"

definition setup_skinning :: "gltf \<Rightarrow> pynode \<Rightarrow> nat \<Rightarrow> error + gltf" where
  "setup_skinning g pn obj =
     (case py_index_opt (skins g) (skin pn) of Inl e \<Rightarrow> Inl e | Inr pyskin \<Rightarrow>
      (case py_index (joints pyskin) 0 of Inl e \<Rightarrow> Inl e | Inr j \<Rightarrow>
       (case get_vnode g (NodeIdx j) of Inl e \<Rightarrow> Inl e | Inr first_bone \<Rightarrow>
        (case get_vnode_opt g (bone_arma first_bone) of Inl e \<Rightarrow> Inl e | Inr arma \<Rightarrow>
           Inr (upd_obj obj (\<lambda>ob. ob\<lparr>modifiers := modifiers ob @ [blender_object arma]\<rparr>) g)))))"

text \<open>The key to cache the Blender mesh by; \<open>None\<close> is "do not use the cache at all".\<close>

definition cache_key_of :: "pymesh \<Rightarrow> pynode \<Rightarrow> cache_key option" where
  "cache_key_of pm pn =
     (if shapekey_names pm = [] then Some (KeySkin (skin pn))
      else if \<not> weight_animation pn then Some (KeySkinWeights (skin pn) (list_or (weights pn) []))
      else None)"

text \<open>
  The mesh of the new object: the cached one when the key is in \<^verbatim>\<open>pymesh.blender_name\<close>,
  else a mesh made by \<^verbatim>\<open>BlenderMesh.create\<close> and, with a key, entered into the cache.
\<close>

definition mesh_for :: "gltf \<Rightarrow> int \<Rightarrow> pymesh \<Rightarrow> pynode \<Rightarrow> error + (gltf \<times> nat)" where
  "mesh_for g m pm pn =
     (let ck = cache_key_of pm pn in
      case (case ck of None \<Rightarrow> None | Some k \<Rightarrow> blender_name pm k) of
        Some bm \<Rightarrow> (case get_bmesh g bm of Inl e \<Rightarrow> Inl e | Inr _ \<Rightarrow> Inr (g, bm))
      | None \<Rightarrow>
          (case mesh_create (ext g) m (skin pn) of Inl e \<Rightarrow> Inl e
           | Inr me \<Rightarrow>
               (let bm = length (bmeshes g); g1 = g\<lparr>bmeshes := bmeshes g @ [me]\<rparr> in
                Inr (case ck of None \<Rightarrow> g1
                     | Some k \<Rightarrow>
                         g1\<lparr>meshes := (meshes g1)[nat m := pm\<lparr>blender_name := (blender_name pm)(k \<mapsto> bm)\<rparr>]\<rparr>,
                     bm))))"

definition create_mesh_object :: "gltf \<Rightarrow> vnode \<Rightarrow> error + (gltf \<times> nat)" where
  "create_mesh_object g vn =
     (case py_index_opt (nodes g) (mesh_node_idx vn) of Inl e \<Rightarrow> Inl e | Inr pn \<Rightarrow>
      (case mesh pn of None \<Rightarrow> Inl TypeError
       | Some m \<Rightarrow>
           if \<not> (0 \<le> m \<and> m < int (length (meshes g)))
           then Inr (objects_new g (name_or (name vn) ''Invalid Mesh Index'') NoData)
           else
             (let pm = meshes g ! nat m in
              case mesh_for g m pm pn of Inl e \<Rightarrow> Inl e
              | Inr (g2, bm) \<Rightarrow>
                  (case objects_new g2 (name_or (name vn) (bm_name (bmeshes g2 ! bm))) (MeshData bm) of
                     (g3, obj) \<Rightarrow>
                       (case (if shapekey_names pm \<noteq> [] then set_morph_weights g3 pn obj else Inr g3) of
                          Inl e \<Rightarrow> Inl e
                        | Inr g4 \<Rightarrow>
                            (case (if skin pn \<noteq> None then setup_skinning g4 pn obj else Inr g4) of
                               Inl e \<Rightarrow> Inl e
                             | Inr g5 \<Rightarrow> Inr (g5, obj)))))))"

section \<open>\<^verbatim>\<open>create_object\<close>\<close>

text \<open>\<^verbatim>\<open>gltf.data.nodes[vnode_id]\<close> when the id is an int (for the extras and the hooks).\<close>

definition node_of_id :: "gltf \<Rightarrow> vnode_id \<Rightarrow> error + unit" where
  "node_of_id g vid =
     (case vid of
        NodeIdx i \<Rightarrow> (case py_index (nodes g) i of Inl e \<Rightarrow> Inl e | Inr _ \<Rightarrow> Inr ())
      | Synthetic _ \<Rightarrow> Inr ())"

text \<open>The first part of \<^verbatim>\<open>create_object\<close>: the new object, by what the node carries.\<close>

definition make_object :: "gltf \<Rightarrow> vnode_id \<Rightarrow> vnode \<Rightarrow> error + (gltf \<times> nat)" where
  "make_object g vnode_id vn =
     (if mesh_node_idx vn \<noteq> None then create_mesh_object g vn
      else if camera_node_idx vn \<noteq> None then
        (case py_index_opt (nodes g) (camera_node_idx vn) of Inl e \<Rightarrow> Inl e | Inr pn \<Rightarrow>
         (case camera_create (ext g) (camera pn) of Inl e \<Rightarrow> Inl e
          | Inr cam \<Rightarrow> Inr (objects_new g (name_or (name vn) cam) (CameraData cam))))
      else if light_node_idx vn \<noteq> None then
        (case py_index_opt (nodes g) (light_node_idx vn) of Inl e \<Rightarrow> Inl e | Inr pn \<Rightarrow>
         (case light_create (ext g) (light pn) of Inl e \<Rightarrow> Inl e
          | Inr li \<Rightarrow> Inr (objects_new g (name_or (name vn) li) (LightData li))))
      else if is_arma vn then
        Inr (objects_new g (name_or (name vn) (arma_name vn)) (ArmatureData (arma_name vn)))
      else
        (case objects_new g (name_or (name vn) (default_name vn)) NoData of
           (g1, obj) \<Rightarrow>
             (case calc_empty_display_size g1 vnode_id of Inl e \<Rightarrow> Inl e
              | Inr sz \<Rightarrow> Inr (upd_obj obj (\<lambda>ob. ob\<lparr>empty_display_size := sz\<rparr>) g1, obj))))"

text \<open>The "Set parent" part of \<^verbatim>\<open>create_object\<close>.\<close>

definition set_parent :: "gltf \<Rightarrow> vnode \<Rightarrow> nat \<Rightarrow> error + gltf" where
  "set_parent g vn obj =
     (case parent vn of None \<Rightarrow> Inr g
      | Some p \<Rightarrow>
          (case get_vnode g p of Inl e \<Rightarrow> Inl e | Inr parent_vnode \<Rightarrow>
             if type parent_vnode = Object then
               Inr (upd_obj obj (\<lambda>ob. ob\<lparr>obj_parent := blender_object parent_vnode\<rparr>) g)
             else if type parent_vnode = Bone then
               (case get_vnode_opt g (bone_arma parent_vnode) of Inl e \<Rightarrow> Inl e
                | Inr arma_vnode \<Rightarrow>
                    Inr (upd_obj obj
                          (\<lambda>ob. ob\<lparr>obj_parent := blender_object arma_vnode,
                                    parent_type := ''BONE'',
                                    parent_bone := blender_bone_name parent_vnode,
                                    location := vadd (location ob) (0, - bone_length parent_vnode, 0)\<rparr>)
                          g))
             else Inr g))"

definition create_object :: "gltf \<Rightarrow> vnode_id \<Rightarrow> error + (gltf \<times> nat)" where
  "create_object g vnode_id =
     (case get_vnode g vnode_id of Inl e \<Rightarrow> Inl e | Inr vn \<Rightarrow>
      (case make_object g vnode_id vn of Inl e \<Rightarrow> Inl e
       | Inr (g1, obj) \<Rightarrow>
           (let g2 = upd_vnode vnode_id (\<lambda>v. v\<lparr>blender_object := Some obj\<rparr>) g1 in
            case node_of_id g2 vnode_id of Inl e \<Rightarrow> Inl e
            | Inr _ \<Rightarrow>
                (let g3 = upd_obj obj
                            (\<lambda>ob. ob\<lparr>location := trans vn, rotation_quaternion := rot vn,
                                      obj_scale := scale vn\<rparr>) g2 in
                 case set_parent g3 vn obj of Inl e \<Rightarrow> Inl e
                 | Inr g4 \<Rightarrow> Inr (g4\<lparr>scene_objects := scene_objects g4 @ [obj]\<rparr>, obj)))))"

section \<open>\<^verbatim>\<open>create_bones\<close>\<close>

text \<open>
  A loop over a list whose body is a recursive call: \<open>None\<close> is "the call did not return"
  (out of fuel), \<open>Some (Inl e)\<close> an exception, which ends the loop.
\<close>

fun fold_res :: "('a \<Rightarrow> 's \<Rightarrow> (error + 's) option) \<Rightarrow> 'a list \<Rightarrow> 's \<Rightarrow> (error + 's) option" where
  "fold_res f [] s = Some (Inr s)"
| "fold_res f (x # xs) s =
     (case f x s of None \<Rightarrow> None | Some (Inl e) \<Rightarrow> Some (Inl e) | Some (Inr s') \<Rightarrow> fold_res f xs s')"

text \<open>
  The local function \<^verbatim>\<open>visit\<close>; \<open>acc\<close> is the list \<^verbatim>\<open>bone_ids\<close> it appends to. The first
  argument bounds the depth of the recursion.
\<close>

fun visit :: "nat \<Rightarrow> (vnode_id \<Rightarrow> vnode option) \<Rightarrow> vnode_id \<Rightarrow> vnode_id list \<Rightarrow> (error + vnode_id list) option" where
  "visit 0 vs vid acc = None"
| "visit (Suc n) vs vid acc =
     (case vs vid of None \<Rightarrow> Some (Inl KeyError)
      | Some v \<Rightarrow>
          if type v = Bone then fold_res (visit n vs) (children v) (acc @ [vid])
          else Some (Inr acc))"

text \<open>The edit bone made for a virtual node (position of the bone in armature space).\<close>

definition make_editbone :: "vnode \<Rightarrow> edit_bone" where
  "make_editbone vn =
     (let arma_mat = editbone_arma_mat vn;
          eb = \<lparr>eb_name = name_or (name vn) (default_name vn), use_connect = False,
                head = (0, 0, 0), tail = (0, 0, 0), align_roll = (0, 0, 0), eb_parent = None\<rparr>;
          eb1 = eb\<lparr>head := mat_vec3 arma_mat (0, 0, 0)\<rparr>;
          eb2 = eb1\<lparr>tail := mat_vec3 arma_mat (0, 1, 0)\<rparr>;
          eb3 = set_length (bone_length vn) eb2
      in eb3\<lparr>align_roll := vsub (mat_vec3 arma_mat (0, 0, 1)) (head eb3)\<rparr>)"

fun edit_loop :: "gltf \<Rightarrow> nat \<Rightarrow> vnode_id list \<Rightarrow> error + gltf" where
  "edit_loop g arma [] = Inr g"
| "edit_loop g arma (vid # ids) =
     (case get_vnode g vid of Inl e \<Rightarrow> Inl e | Inr vn \<Rightarrow>
      (let eb = make_editbone vn;
           g1 = upd_obj arma (\<lambda>ob. ob\<lparr>edit_bones := edit_bones ob @ [eb]\<rparr>) g;
           g2 = upd_vnode vid (\<lambda>v. v\<lparr>blender_bone_name := Some (eb_name eb)\<rparr>) g1
       in case node_of_id g2 vid of Inl e \<Rightarrow> Inl e | Inr _ \<Rightarrow> edit_loop g2 arma ids))"

text \<open>\<^verbatim>\<open>armature.edit_bones[name]\<close>\<close>

definition find_bone :: "edit_bone list \<Rightarrow> string option \<Rightarrow> error + edit_bone" where
  "find_bone bs n =
     (case n of None \<Rightarrow> Inl KeyError
      | Some nm \<Rightarrow> (case find (\<lambda>b. eb_name b = nm) bs of None \<Rightarrow> Inl KeyError | Some b \<Rightarrow> Inr b))"

fun set_bone_parent :: "string \<Rightarrow> string \<Rightarrow> edit_bone list \<Rightarrow> edit_bone list" where
  "set_bone_parent nm p [] = []"
| "set_bone_parent nm p (b # bs) =
     (if eb_name b = nm then b\<lparr>eb_parent := Some p\<rparr> # bs else b # set_bone_parent nm p bs)"

fun parent_loop :: "gltf \<Rightarrow> nat \<Rightarrow> vnode_id list \<Rightarrow> error + gltf" where
  "parent_loop g arma [] = Inr g"
| "parent_loop g arma (vid # ids) =
     (case get_vnode g vid of Inl e \<Rightarrow> Inl e | Inr vn \<Rightarrow>
      (case get_vnode_opt g (parent vn) of Inl e \<Rightarrow> Inl e | Inr parent_vnode \<Rightarrow>
         if type parent_vnode = Bone then
           (case get_obj g arma of Inl e \<Rightarrow> Inl e | Inr ob \<Rightarrow>
            (case find_bone (edit_bones ob) (blender_bone_name vn) of Inl e \<Rightarrow> Inl e
             | Inr editbone \<Rightarrow>
                 (case find_bone (edit_bones ob) (blender_bone_name parent_vnode) of Inl e \<Rightarrow> Inl e
                  | Inr parent_editbone \<Rightarrow>
                      parent_loop
                        (upd_obj arma
                           (\<lambda>ob. ob\<lparr>edit_bones :=
                                      set_bone_parent (eb_name editbone) (eb_name parent_editbone)
                                        (edit_bones ob)\<rparr>) g)
                        arma ids)))
         else parent_loop g arma ids))"

text \<open>
  The pose of a bone: \<^verbatim>\<open>BoneTRS = EditBone * PoseBone\<close>, and the pose bone is set to make
  \<^verbatim>\<open>BoneTRS = vnode.trs\<close>.
\<close>

definition make_pose :: "vnode \<Rightarrow> pose_bone" where
  "make_pose vn =
     (let t = trans vn; r = rot vn; s = scale vn;
          et = editbone_trans vn; er = editbone_rot vn
      in \<lparr>pb_location = qrot (conjugated er) (vsub t et),
          pb_rotation_quaternion = qmul (conjugated er) r,
          pb_scale = s\<rparr>)"

text \<open>\<^verbatim>\<open>bpy.ops.object.mode_set(mode="OBJECT")\<close> on the armature in edit mode.\<close>

definition leave_edit_mode :: "nat \<Rightarrow> gltf \<Rightarrow> gltf" where
  "leave_edit_mode arma g = upd_obj arma (\<lambda>ob. ob\<lparr>edit_bones := from_edit [] (edit_bones ob)\<rparr>) g"

text \<open>
  The loop over the pose bones. Leaving edit mode gives the armature one pose bone for each
  bone that is left, so \<^verbatim>\<open>blender_arma.pose.bones[name]\<close> is found when a bone has that
  name.
\<close>

fun pose_loop :: "gltf \<Rightarrow> nat \<Rightarrow> vnode_id list \<Rightarrow> error + gltf" where
  "pose_loop g arma [] = Inr g"
| "pose_loop g arma (vid # ids) =
     (case get_vnode g vid of Inl e \<Rightarrow> Inl e | Inr vn \<Rightarrow>
      (case get_obj g arma of Inl e \<Rightarrow> Inl e | Inr ob \<Rightarrow>
       (case find_bone (edit_bones ob) (blender_bone_name vn) of Inl e \<Rightarrow> Inl e
        | Inr editbone \<Rightarrow>
            (let g1 = upd_obj arma
                        (\<lambda>ob. ob\<lparr>pose_bones := (pose_bones ob)(eb_name editbone \<mapsto> make_pose vn)\<rparr>) g
             in case node_of_id g1 vid of Inl e \<Rightarrow> Inl e | Inr _ \<Rightarrow> pose_loop g1 arma ids))))"

definition create_bones :: "nat \<Rightarrow> gltf \<Rightarrow> vnode_id \<Rightarrow> (error + gltf) option" where
  "create_bones n g arma_id =
     (case get_vnode g arma_id of Inl e \<Rightarrow> Some (Inl e) | Inr arma \<Rightarrow>
      (case blender_object arma of None \<Rightarrow> Some (Inl AttributeError)
       | Some blender_arma \<Rightarrow>
           (case get_obj g blender_arma of Inl e \<Rightarrow> Some (Inl e) | Inr _ \<Rightarrow>
            (case fold_res (visit n (vnodes g)) (children arma) [] of None \<Rightarrow> None
             | Some (Inl e) \<Rightarrow> Some (Inl e)
             | Some (Inr bone_ids) \<Rightarrow>
                 Some (case edit_loop g blender_arma bone_ids of Inl e \<Rightarrow> Inl e | Inr g1 \<Rightarrow>
                       (case parent_loop g1 blender_arma bone_ids of Inl e \<Rightarrow> Inl e | Inr g2 \<Rightarrow>
                          pose_loop (leave_edit_mode blender_arma g2) blender_arma bone_ids))))))"

section \<open>\<^verbatim>\<open>create_vnode\<close>\<close>

text \<open>The branch of \<^verbatim>\<open>create_vnode\<close> on the type of the node.\<close>

definition create_node :: "nat \<Rightarrow> vnode_id \<Rightarrow> vnode \<Rightarrow> gltf \<Rightarrow> (error + gltf) option" where
  "create_node n vnode_id vn g1 =
     (if type vn = Object then
        (case node_of_id g1 vnode_id of Inl e \<Rightarrow> Some (Inl e) | Inr _ \<Rightarrow>
         (case create_object g1 vnode_id of Inl e \<Rightarrow> Some (Inl e)
          | Inr (g2, obj) \<Rightarrow>
              if is_arma vn then create_bones n g2 vnode_id else Some (Inr g2)))
      else if type vn = Bone then Some (Inr g1)
      else Some (Inr (upd_vnode vnode_id (\<lambda>v. v\<lparr>blender_object := None\<rparr>) g1)))"

text \<open>
  Create a virtual node and all its descendants. The first argument bounds the depth of
  the recursion; \<open>None\<close> is "the bound was reached".
\<close>

fun create_vnode :: "nat \<Rightarrow> vnode_id \<Rightarrow> gltf \<Rightarrow> (error + gltf) option" where
  "create_vnode 0 vnode_id g = None"
| "create_vnode (Suc n) vnode_id g =
     (case get_vnode g vnode_id of Inl e \<Rightarrow> Some (Inl e) | Inr vn \<Rightarrow>
      (case create_node n vnode_id vn (g\<lparr>display_current_node := display_current_node g + 1\<rparr>) of
         None \<Rightarrow> None
       | Some (Inl e) \<Rightarrow> Some (Inl e)
       | Some (Inr g3) \<Rightarrow> fold_res (create_vnode n) (children vn) g3))"

section \<open>The rest pose and the pose of a bone\<close>

text \<open>
  Blender's two layers of a bone, \<^verbatim>\<open>BoneTRS = EditBone * PoseBone\<close>: the rest transform of
  the edit bone (a translation \<open>et\<close> and a rotation \<open>er\<close>, no scale) applied after the
  pose (location, rotation, scale). As transforms of points, the rest transform is
  \<open>x \<mapsto> et + er x\<close>, so the product has translation \<open>et + er l\<close>, rotation \<open>er * r\<close> and
  the scale of the pose.
\<close>

definition rest_pose_compose :: "vec3 \<Rightarrow> quat \<Rightarrow> pose_bone \<Rightarrow> vec3 \<times> quat \<times> vec3" where
  "rest_pose_compose et er pb =
     (vadd et (qrot er (pb_location pb)), qmul er (pb_rotation_quaternion pb), pb_scale pb)"

section \<open>Sample data\<close>

text \<open>A node with the defaults of \<^verbatim>\<open>VNode\<close>, and an importer state with no nodes.\<close>

definition vnode0 :: vnode where
  "vnode0 =
     \<lparr>name = None, default_name = ''Node'', type = Object, is_arma = False, arma_name = ''Armature'',
      parent = None, children = [], mesh_node_idx = None, camera_node_idx = None,
      light_node_idx = None, trans = (0, 0, 0), rot = (1, 0, 0, 0), scale = (1, 1, 1),
      bone_arma = None, bone_length = 1,
      editbone_arma_mat = ((1, 0, 0, 0), (0, 1, 0, 0), (0, 0, 1, 0), (0, 0, 0, 1)),
      editbone_trans = (0, 0, 0), editbone_rot = (1, 0, 0, 0), blender_object = None,
      blender_bone_name = None\<rparr>"

definition host0 :: host where
  "host0 =
     \<lparr>camera_create = (\<lambda>_. Inr ''Camera''), light_create = (\<lambda>_. Inr ''Light''),
      mesh_create = (\<lambda>_ _. Inr \<lparr>bm_name = ''Mesh'', key_blocks = (\<lambda>_. None)\<rparr>)\<rparr>"

definition gltf0 :: gltf where
  "gltf0 =
     \<lparr>vnodes = (\<lambda>_. None), nodes = [], meshes = [], skins = [], display_current_node = 0,
      objects = [], bmeshes = [], scene_objects = [], ext = host0\<rparr>"

text \<open>A node at distance 5 from its parent with one child at distance 10 from it.\<close>

definition gltf_two :: gltf where
  "gltf_two = gltf0\<lparr>vnodes :=
      [NodeIdx 0 \<mapsto> vnode0\<lparr>trans := (3, 4, 0), children := [NodeIdx 1]\<rparr>,
       NodeIdx 1 \<mapsto> vnode0\<lparr>trans := (0, 10, 0), parent := Some (NodeIdx 0)\<rparr>]\<rparr>"

text \<open>What \<^verbatim>\<open>create_bones\<close> sets on an edit bone: head, tail, length and the vector given to
  \<^verbatim>\<open>align_roll\<close>.\<close>

definition placement :: "edit_bone \<Rightarrow> vec3 \<times> vec3 \<times> real \<times> vec3" where
  "placement eb = (head eb, tail eb, eb_length eb, align_roll eb)"



text \<open>A glTF node and a glTF mesh with nothing set.\<close>

definition pynode0 :: pynode where
  "pynode0 = \<lparr>mesh = None, skin = None, camera = None, light = None, weights = None,
               weight_animation = False\<rparr>"

definition pymesh0 :: pymesh where
  "pymesh0 = \<lparr>mesh_name = None, shapekey_names = [], mesh_weights = None,
               blender_name = (\<lambda>_. None)\<rparr>"

text \<open>
  A dummy root with two children: node 0 instantiates mesh 0 with skin \<open>k\<close>, node 1 is an
  empty. The skins of the document are \<open>sks\<close>.
\<close>

definition gltf_skin :: "int \<Rightarrow> pyskin list \<Rightarrow> gltf" where
  "gltf_skin k sks = gltf0\<lparr>
     vnodes :=
       [Synthetic ''root'' \<mapsto> vnode0\<lparr>type := DummyRoot, children := [NodeIdx 0, NodeIdx 1]\<rparr>,
        NodeIdx 0 \<mapsto> vnode0\<lparr>mesh_node_idx := Some 0, parent := Some (Synthetic ''root'')\<rparr>,
        NodeIdx 1 \<mapsto> vnode0\<lparr>parent := Some (Synthetic ''root'')\<rparr>],
     nodes := [pynode0\<lparr>mesh := Some 0, skin := Some k\<rparr>, pynode0],
     meshes := [pymesh0],
     skins := sks\<rparr>"

text \<open>A dummy root (with a stale object handle) over two empties.\<close>

definition gltf_root :: gltf where
  "gltf_root = gltf0\<lparr>
     vnodes :=
       [Synthetic ''root'' \<mapsto> vnode0\<lparr>type := DummyRoot, children := [NodeIdx 0, NodeIdx 1],
                                        blender_object := Some 7\<rparr>,
        NodeIdx 0 \<mapsto> vnode0\<lparr>parent := Some (Synthetic ''root'')\<rparr>,
        NodeIdx 1 \<mapsto> vnode0\<lparr>parent := Some (Synthetic ''root'')\<rparr>],
     nodes := [pynode0, pynode0]\<rparr>"

section \<open>The depth-first pre-order of a subtree\<close>








section \<open>The virtual-node forest\<close>

text \<open>
  The edges of the virtual-node graph: \<open>(c, p)\<close> when \<open>c\<close> is in the children list of \<open>p\<close>.
\<close>

definition child_rel :: "(vnode_id \<Rightarrow> vnode option) \<Rightarrow> (vnode_id \<times> vnode_id) set" where
  "child_rel vs = {(c, p). \<exists>v. vs p = Some v \<and> c \<in> set (children v)}"

text \<open>
  A finite, acyclic forest: no node is its own ancestor, a node is a child of at most one
  node, and at most once.
\<close>

definition forest :: "(vnode_id \<Rightarrow> vnode option) \<Rightarrow> bool" where
  "forest vs \<longleftrightarrow>
     finite (dom vs) \<and> acyclic (child_rel vs) \<and> single_valued (child_rel vs) \<and>
     (\<forall>p v. vs p = Some v \<longrightarrow> distinct (children v))"

text \<open>
  What the traversals read of a node: its type and its children list.
\<close>

definition tree_of :: "(vnode_id \<Rightarrow> vnode option) \<Rightarrow> vnode_id \<Rightarrow> (vnode_type \<times> vnode_id list) option" where
  "tree_of vs i = map_option (\<lambda>v. (type v, children v)) (vs i)"

text \<open>
  The proper ancestors of a node.
\<close>

definition ancestors :: "(vnode_id \<Rightarrow> vnode option) \<Rightarrow> vnode_id \<Rightarrow> vnode_id set" where
  "ancestors vs i = {a. (i, a) \<in> (child_rel vs)\<^sup>+}"

text \<open>
  The number of nodes that are not ancestors of a node: it bounds the depth of the subtree
  below it.
\<close>

definition depth_left :: "(vnode_id \<Rightarrow> vnode option) \<Rightarrow> vnode_id \<Rightarrow> nat" where
  "depth_left vs i = card (dom vs - ancestors vs i)"

text \<open>
  The nodes of the subtree of a node (itself included, when it is a virtual node).
\<close>

definition descendants :: "(vnode_id \<Rightarrow> vnode option) \<Rightarrow> vnode_id \<Rightarrow> vnode_id set" where
  "descendants vs i = {x \<in> dom vs. (x, i) \<in> (child_rel vs)\<^sup>*}"

text \<open>
  The second state has the tree and the node counter of the first.
\<close>

definition keeps :: "gltf \<Rightarrow> gltf \<Rightarrow> bool" where
  "keeps g g' \<longleftrightarrow>
     tree_of (vnodes g') = tree_of (vnodes g) \<and> display_current_node g' = display_current_node g"

section \<open>The mesh caches of an importer state\<close>

text \<open>
  The entry of the cache of the glTF mesh \<open>i\<close> for the key \<open>k\<close>:
  \<^verbatim>\<open>gltf.data.meshes[i].blender_name.get(k)\<close>.
\<close>

definition cached :: "gltf \<Rightarrow> nat \<Rightarrow> cache_key \<Rightarrow> nat option" where
  "cached g i k = (if i < length (meshes g) then blender_name (meshes g ! i) k else None)"

text \<open>
  The caches are consistent: every entry names a Blender mesh that exists, and no two
  entries name the same Blender mesh. So it is at the start of an import, when the caches
  are empty.
\<close>

definition cache_ok :: "gltf \<Rightarrow> bool" where
  "cache_ok g \<longleftrightarrow>
     (\<forall>i k b. cached g i k = Some b \<longrightarrow> b < length (bmeshes g)) \<and>
     (\<forall>i j k l b. cached g i k = Some b \<and> cached g j l = Some b \<longrightarrow> i = j \<and> k = l)"

text \<open>
  The second state has the document, the caches and the number of Blender meshes of the
  first, and the objects of the first with their data.
\<close>

definition same_meshes :: "gltf \<Rightarrow> gltf \<Rightarrow> bool" where
  "same_meshes g g' \<longleftrightarrow>
     nodes g' = nodes g \<and> meshes g' = meshes g \<and> length (bmeshes g') = length (bmeshes g) \<and>
     length (objects g) \<le> length (objects g') \<and>
     (\<forall>i < length (objects g). obj_data (objects g' ! i) = obj_data (objects g ! i))"

text \<open>
  The second state extends the first: its caches are consistent, the nodes and the shape key
  names of the glTF meshes are those of the first, the objects of the first are there with
  their data, the cache entries of the first are there, and every other cache entry names a
  Blender mesh that the first has not.
\<close>

definition grows :: "gltf \<Rightarrow> gltf \<Rightarrow> bool" where
  "grows g g' \<longleftrightarrow>
     cache_ok g' \<and> nodes g' = nodes g \<and> length (meshes g') = length (meshes g) \<and>
     (\<forall>i < length (meshes g). shapekey_names (meshes g' ! i) = shapekey_names (meshes g ! i)) \<and>
     length (bmeshes g) \<le> length (bmeshes g') \<and>
     length (objects g) \<le> length (objects g') \<and>
     (\<forall>i < length (objects g). obj_data (objects g' ! i) = obj_data (objects g ! i)) \<and>
     (\<forall>i k b. cached g i k = Some b \<longrightarrow> cached g' i k = Some b) \<and>
     (\<forall>i k b. cached g' i k = Some b \<longrightarrow> cached g i k = Some b \<or> length (bmeshes g) \<le> b)"

text \<open>
  The states that the importer reaches from a state by calls of \<^verbatim>\<open>create_vnode\<close>,
  \<^verbatim>\<open>create_object\<close> and \<^verbatim>\<open>create_mesh_object\<close> that return.
\<close>

inductive run :: "gltf \<Rightarrow> gltf \<Rightarrow> bool" where
  run_refl: "run g g"
| run_vnode: "run g g1 \<Longrightarrow> create_vnode n vid g1 = Some (Inr g2) \<Longrightarrow> run g g2"
| run_object: "run g g1 \<Longrightarrow> create_object g1 vid = Inr (g2, ob) \<Longrightarrow> run g g2"
| run_mesh_object: "run g g1 \<Longrightarrow> create_mesh_object g1 vn = Inr (g2, ob) \<Longrightarrow> run g g2"

text \<open>
  A document with two glTF meshes, mesh 0 without shape keys and mesh 1 with the shape key
  \<open>k\<close>, and a host that makes meshes with a key block \<open>k\<close>. Nodes 0 and 2 instantiate mesh
  0 and have weight animation; nodes 1, 3, 4 and 5 instantiate mesh 1, with the weights
  \<open>[1]\<close>, \<open>[1/2]\<close>, \<open>[1]\<close> and \<open>[1]\<close>, node 5 with weight animation.
\<close>

definition gltf_cache :: gltf where
  "gltf_cache = gltf0\<lparr>
     nodes := [pynode0\<lparr>mesh := Some 0, weight_animation := True\<rparr>,
               pynode0\<lparr>mesh := Some 1, weights := Some [1]\<rparr>,
               pynode0\<lparr>mesh := Some 0, weight_animation := True\<rparr>,
               pynode0\<lparr>mesh := Some 1, weights := Some [1 / 2]\<rparr>,
               pynode0\<lparr>mesh := Some 1, weights := Some [1]\<rparr>,
               pynode0\<lparr>mesh := Some 1, weights := Some [1], weight_animation := True\<rparr>],
     meshes := [pymesh0, pymesh0\<lparr>shapekey_names := [Some ''k'']\<rparr>],
     ext := host0\<lparr>mesh_create :=
              (\<lambda>_ _. Inr \<lparr>bm_name = ''Mesh'',
                           key_blocks = [''k'' \<mapsto> \<lparr>slider_min = 0, slider_max = 1, kb_value = 0\<rparr>]\<rparr>)\<rparr>\<rparr>"

text \<open>
  Mesh objects made in turn for the virtual nodes of the glTF nodes \<open>ns\<close>: the Blender mesh
  of each object at the end, and the number of Blender meshes.
\<close>

fun mesh_objects :: "gltf \<Rightarrow> int list \<Rightarrow> nat list \<Rightarrow> error + (obj_data list \<times> nat)" where
  "mesh_objects g [] obs = Inr (map (\<lambda>ob. obj_data (objects g ! ob)) obs, length (bmeshes g))"
| "mesh_objects g (i # ns) obs =
     (case create_mesh_object g (vnode0\<lparr>mesh_node_idx := Some i\<rparr>) of Inl e \<Rightarrow> Inl e
      | Inr (g1, ob) \<Rightarrow> mesh_objects g1 ns (obs @ [ob]))"

section \<open>Claims\<close>

subsection \<open>Facts shared by the proofs\<close>

text \<open>What an assignment to an object leaves unchanged.\<close>

lemma upd_obj_frame [simp]:
  "bmeshes (upd_obj h f g) = bmeshes g" "meshes (upd_obj h f g) = meshes g"
  "nodes (upd_obj h f g) = nodes g" "vnodes (upd_obj h f g) = vnodes g"
  "skins (upd_obj h f g) = skins g" "ext (upd_obj h f g) = ext g"
  "display_current_node (upd_obj h f g) = display_current_node g"
  "scene_objects (upd_obj h f g) = scene_objects g"
  "length (objects (upd_obj h f g)) = length (objects g)"
  by (simp_all add: upd_obj_def)

lemma upd_obj_data:
  "(\<And>ob. obj_data (f ob) = obj_data ob) \<Longrightarrow>
   obj_data (objects (upd_obj h f g) ! i) = obj_data (objects g ! i)"
  by (cases "h < length (objects g)") (simp_all add: upd_obj_def nth_list_update list_update_beyond)

text \<open>The definitions to unfold when a function is run on sample data.\<close>

lemmas eval_defs =
  create_node_def create_object_def make_object_def create_mesh_object_def mesh_for_def cache_key_of_def
  set_morph_weights_def setup_skinning_def set_parent_def calc_empty_display_size_def
  node_of_id_def get_vnode_def get_vnode_opt_def get_obj_def get_bmesh_def objects_new_def
  new_obj_def upd_obj_def upd_vnode_def py_index_def py_index_opt_def name_or_def list_or_def
  min_default_def gltf0_def host0_def vnode0_def pynode0_def pymesh0_def Let_def

subsection \<open>The base colour normalisation\<close>

text \<open>
  C9. In the untextured branch of \<open>export_specular\<close>, \<open>normalize\<close> divides each channel of a
  three-channel base colour by the luminance \<open>0.3 r + 0.6 g + 0.1 b\<close> when that luminance is
  not zero and returns the colour unchanged when it is zero; for no base colour does it
  divide by zero.
\<close>

theorem normalize_never_divides_by_zero:
  "normalize_color [r, g, b] =
     (if 0.3 * r + 0.6 * g + 0.1 * b = 0 then Inr [r, g, b]
      else Inr [r / (0.3 * r + 0.6 * g + 0.1 * b), g / (0.3 * r + 0.6 * g + 0.1 * b),
                b / (0.3 * r + 0.6 * g + 0.1 * b)])
   \<and> normalize_color c \<noteq> Inl ZeroDivisionError"
  by (simp add: normalize_color_def luminance_def py_div_def Let_def)

subsection \<open>The pose of a bone\<close>

lemma qrot_conj_cancel:
  "qrot q (qrot (conjugated q) v) =
     (case v of (x, y, z) \<Rightarrow>
        (qnorm2 q * qnorm2 q * x, qnorm2 q * qnorm2 q * y, qnorm2 q * qnorm2 q * z))"
  by (cases q; cases v) (simp add: qnorm2_def Let_def algebra_simps)

lemma qmul_conj_cancel:
  "qmul q (qmul (conjugated q) r) =
     (case r of (a, b, c, d) \<Rightarrow> (qnorm2 q * a, qnorm2 q * b, qnorm2 q * c, qnorm2 q * d))"
  by (cases q; cases r) (simp add: qnorm2_def algebra_simps)

lemma vadd_vsub: "vadd et (vsub t et) = t"
  by (cases et; cases t) simp

text \<open>
  The rotation of a product of quaternions is the composition of the rotations, so
  \<open>rest_pose_compose\<close> is the composition of the two transforms on points.
\<close>

lemma qrot_qmul: "qrot (qmul p q) v = qrot p (qrot q v)"
  by (cases p; cases q; cases v) (simp add: Let_def algebra_simps)

text \<open>
  C1. For a Bone node with original TRS \<open>(t, r, s)\<close>, editbone translation \<open>et\<close> and unit
  editbone rotation \<open>er\<close>, the pose that \<open>create_bones\<close> computes (location
  \<open>er\<^sup>* (t - et)\<close>, rotation \<open>er\<^sup>* r\<close>, scale \<open>s\<close>) composed with the rest transform
  \<open>(et, er)\<close> is the original TRS. Over the reals the two are equal, hence within any
  tolerance.
\<close>

theorem pose_reproduces_trs:
  assumes "qnorm2 (editbone_rot vn) = 1"
  shows "rest_pose_compose (editbone_trans vn) (editbone_rot vn) (make_pose vn)
           = (trans vn, rot vn, scale vn)"
proof -
  have loc: "qrot (editbone_rot vn)
               (qrot (conjugated (editbone_rot vn)) (vsub (trans vn) (editbone_trans vn)))
             = vsub (trans vn) (editbone_trans vn)"
    using assms by (simp add: qrot_conj_cancel split: prod.splits)
  have ro: "qmul (editbone_rot vn) (qmul (conjugated (editbone_rot vn)) (rot vn)) = rot vn"
    using assms by (simp add: qmul_conj_cancel split: prod.splits)
  show ?thesis
    by (simp add: rest_pose_compose_def make_pose_def Let_def loc ro vadd_vsub)
qed

theorem pose_reproduces_trs_witness:
  "qnorm2 (0, 1, 0, 0) = 1 \<and>
   rest_pose_compose (1, 0, 0) (0, 1, 0, 0)
     (make_pose (vnode0\<lparr>trans := (1, 2, 3), rot := (0, 0, 1, 0), scale := (2, 2, 2),
                         editbone_trans := (1, 0, 0), editbone_rot := (0, 1, 0, 0)\<rparr>))
     = ((1, 2, 3), (0, 0, 1, 0), (2, 2, 2))"
  using pose_reproduces_trs
          [of "vnode0\<lparr>trans := (1, 2, 3), rot := (0, 0, 1, 0), scale := (2, 2, 2),
                       editbone_trans := (1, 0, 0), editbone_rot := (0, 1, 0, 0)\<rparr>"]
  by (simp add: qnorm2_def)

subsection \<open>The display size of an empty\<close>

lemma sizes_of_ok:
  "set vids \<subseteq> dom (vnodes g) \<Longrightarrow>
   sizes_of g vids = Inr (map (\<lambda>i. vlength (trans (the (vnodes g i))) * 0.4) vids)"
  by (induction vids) (auto simp: get_vnode_def)

lemma min_default_Min: "xs \<noteq> [] \<Longrightarrow> min_default xs d = Min (set xs)"
  by (cases xs) (simp_all add: min_default_def Min.set_eq_fold [symmetric])

lemma calc_ge: "calc_empty_display_size g vid = Inr x \<Longrightarrow> 0.001 \<le> x"
  by (auto simp: calc_empty_display_size_def split: sum.splits)

lemma sqrt25: "sqrt 25 = 5" and sqrt100: "sqrt 100 = 10"
  using real_sqrt_abs2 [of 5] real_sqrt_abs2 [of 10] by simp_all

text \<open>
  C10. Whatever \<open>calc_empty_display_size\<close> returns is at least 0.001; for a node whose
  children are all virtual nodes it returns the maximum of 0.001 and the minimum, over the
  node and its direct children, of 0.4 times the length of the local translation.
\<close>

theorem calc_empty_display_size_value:
  "(calc_empty_display_size g vid = Inr x \<longrightarrow> 0.001 \<le> x) \<and>
   (vnodes g vid = Some vn \<and> set (children vn) \<subseteq> dom (vnodes g) \<longrightarrow>
      calc_empty_display_size g vid =
        Inr (max (Min ((\<lambda>i. vlength (trans (the (vnodes g i))) * 0.4) ` set (vid # children vn)))
               0.001))"
proof (intro conjI impI)
  assume "calc_empty_display_size g vid = Inr x"
  then show "0.001 \<le> x" by (rule calc_ge)
next
  assume a: "vnodes g vid = Some vn \<and> set (children vn) \<subseteq> dom (vnodes g)"
  then have sub: "set (vid # children vn) \<subseteq> dom (vnodes g)" by auto
  show "calc_empty_display_size g vid =
        Inr (max (Min ((\<lambda>i. vlength (trans (the (vnodes g i))) * 0.4) ` set (vid # children vn)))
               0.001)"
    using a sizes_of_ok [OF sub]
    by (simp add: calc_empty_display_size_def get_vnode_def min_default_Min del: sizes_of.simps)
qed

theorem calc_empty_display_size_value_witness:
  "calc_empty_display_size gltf_two (NodeIdx 0) = Inr 2 \<and> (0.001::real) \<le> 2"
  using calc_empty_display_size_value
          [of gltf_two "NodeIdx 0" 2 "vnode0\<lparr>trans := (3, 4, 0), children := [NodeIdx 1]\<rparr>"]
  by (simp add: gltf_two_def gltf0_def sqrt25 sqrt100)

subsection \<open>The edit bones\<close>














lemma eb_length_frame [simp]:
  "eb_length (eb\<lparr>align_roll := r\<rparr>) = eb_length eb"
  "eb_length (eb\<lparr>eb_parent := q\<rparr>) = eb_length eb"
  by (simp_all add: eb_length_def)



lemma reparent_frame [simp]:
  "placement (reparent e f) = placement f" "zero_sized (reparent e f) = zero_sized f"
  "eb_name (reparent e f) = eb_name f"
  by (simp_all add: reparent_def placement_def zero_sized_def eb_length_def)





lemma make_editbone_bone_name [simp]:
  "make_editbone (v\<lparr>blender_bone_name := x\<rparr>) = make_editbone v"
  by (simp add: make_editbone_def)


lemma set_bone_parent_placement [simp]:
  "map placement (set_bone_parent nm p bs) = map placement bs"
  by (induction bs) (simp_all add: placement_def)








subsection \<open>The mesh cache\<close>

lemma morph_loop_frame:
  "morph_loop g pm m i ws = Inr g' \<Longrightarrow>
   objects g' = objects g \<and> meshes g' = meshes g \<and> nodes g' = nodes g \<and>
   length (bmeshes g') = length (bmeshes g)"
proof (induction ws arbitrary: g i)
  case Nil
  then show ?case by simp
next
  case (Cons w ws)
  then show ?case
    by (fastforce split: sum.splits option.splits)
qed

lemma set_morph_weights_frame:
  "set_morph_weights g pn ob = Inr g' \<Longrightarrow>
   objects g' = objects g \<and> meshes g' = meshes g \<and> nodes g' = nodes g \<and>
   length (bmeshes g') = length (bmeshes g)"
  by (auto simp: set_morph_weights_def Let_def dest: morph_loop_frame
      split: sum.splits obj_data.splits if_splits)

lemma setup_skinning_frame:
  "setup_skinning g pn ob = Inr g' \<Longrightarrow>
   meshes g' = meshes g \<and> nodes g' = nodes g \<and> bmeshes g' = bmeshes g \<and>
   length (objects g') = length (objects g) \<and>
   (\<forall>i. obj_data (objects g' ! i) = obj_data (objects g ! i))"
  by (auto simp: setup_skinning_def upd_obj_data split: sum.splits)

lemma cmo_valid:
  assumes "create_mesh_object g vn = Inr (g', ob)"
    and "py_index_opt (nodes g) (mesh_node_idx vn) = Inr pn"
    and "mesh pn = Some m" and "0 \<le> m" and "m < int (length (meshes g))"
  shows "\<exists>g2 bm. mesh_for g m (meshes g ! nat m) pn = Inr (g2, bm) \<and>
           ob = length (objects g) \<and> length (objects g') = Suc (length (objects g)) \<and>
           obj_data (objects g' ! ob) = MeshData bm \<and>
           (\<forall>i<length (objects g). obj_data (objects g' ! i) = obj_data (objects g ! i)) \<and>
           objects g2 = objects g \<and>
           meshes g' = meshes g2 \<and> nodes g' = nodes g2 \<and> length (bmeshes g') = length (bmeshes g2)"
proof -
  from assms obtain g2 bm where mf: "mesh_for g m (meshes g ! nat m) pn = Inr (g2, bm)"
    by (auto simp: create_mesh_object_def Let_def split: sum.splits)
  have o2: "objects g2 = objects g"
    using mf by (auto simp: mesh_for_def Let_def split: sum.splits option.splits)
  define g3 where
    "g3 = g2\<lparr>objects := objects g2 @
             [new_obj (name_or (name vn) (bm_name (bmeshes g2 ! bm))) (MeshData bm)]\<rparr>"
  have g3: "objects g3 = objects g @ [new_obj (name_or (name vn) (bm_name (bmeshes g2 ! bm))) (MeshData bm)]"
    "meshes g3 = meshes g2" "nodes g3 = nodes g2" "bmeshes g3 = bmeshes g2"
    by (simp_all add: g3_def o2)
  from assms mf obtain g4 where
    g4: "(if shapekey_names (meshes g ! nat m) \<noteq> [] then set_morph_weights g3 pn (length (objects g2)) else Inr g3) = Inr g4"
    and g5: "(if skin pn \<noteq> None then setup_skinning g4 pn (length (objects g2)) else Inr g4) = Inr g'"
    and ob: "ob = length (objects g2)"
    unfolding g3_def
    by (auto simp: create_mesh_object_def Let_def objects_new_def split: sum.splits prod.splits)
  have f4: "objects g4 = objects g3 \<and> meshes g4 = meshes g3 \<and> nodes g4 = nodes g3 \<and>
            length (bmeshes g4) = length (bmeshes g3)"
    using g4 set_morph_weights_frame by (auto split: if_splits)
  have f5: "meshes g' = meshes g4 \<and> nodes g' = nodes g4 \<and> bmeshes g' = bmeshes g4 \<and>
            length (objects g') = length (objects g4) \<and>
            (\<forall>i. obj_data (objects g' ! i) = obj_data (objects g4 ! i))"
    using g5 setup_skinning_frame by (auto split: if_splits)
  show ?thesis
    using mf ob o2 f4 f5 g3 by (auto simp: new_obj_def nth_append)
qed

lemma cache_key_of_cong:
  "shapekey_names pm' = shapekey_names pm \<Longrightarrow> cache_key_of pm' pn = cache_key_of pm pn"
  by (simp add: cache_key_of_def)

subsection \<open>Malformed skins\<close>

text \<open>
  C3, as stated, fails: with a skin whose joint list is empty, \<open>create_mesh_object\<close> does
  not return an unskinned object but raises \<open>IndexError\<close> (from \<^verbatim>\<open>pyskin.joints[0]\<close>), and
  \<open>create_vnode\<close> on the root ends with that exception, so the sibling node 1 is not built.
\<close>

theorem empty_joints_counterexample:
  "create_mesh_object (gltf_skin 0 [\<lparr>joints = []\<rparr>])
      (vnode0\<lparr>mesh_node_idx := Some 0, parent := Some (Synthetic ''root'')\<rparr>) = Inl IndexError \<and>
   create_vnode 3 (Synthetic ''root'') (gltf_skin 0 [\<lparr>joints = []\<rparr>]) = Some (Inl IndexError)"
  by (simp add: gltf_skin_def eval_defs numeral_3_eq_3)

text \<open>
  C2. The guard of \<open>create_mesh_object\<close> covers the mesh index only. A node with a valid
  mesh and skin index 99 in a document with one skin is not imported as an object without
  skinning: \<^verbatim>\<open>gltf.data.skins[pynode.skin]\<close> raises \<open>IndexError\<close>, and \<open>create_vnode\<close> on
  the root ends with that exception before the sibling node 1 is visited.
\<close>

theorem out_of_range_skin_aborts:
  "create_vnode 3 (Synthetic ''root'') (gltf_skin 99 [\<lparr>joints = [1]\<rparr>]) = Some (Inl IndexError)"
  by (simp add: gltf_skin_def eval_defs numeral_3_eq_3)

text \<open>
  The part of C2 on the mesh index: an out-of-range mesh index gives an object with no
  data, and no exception.
\<close>

lemma invalid_mesh_index_empty_object:
  assumes "py_index_opt (nodes g) (mesh_node_idx vn) = Inr pn" and "mesh pn = Some m"
    and "m < 0 \<or> int (length (meshes g)) \<le> m"
  shows "create_mesh_object g vn =
           Inr (g\<lparr>objects := objects g @ [new_obj (name_or (name vn) ''Invalid Mesh Index'') NoData]\<rparr>,
                length (objects g))"
  using assms by (auto simp: create_mesh_object_def objects_new_def)

lemma morph_loop_skins: "morph_loop g pm m i ws = Inr g' \<Longrightarrow> skins g' = skins g"
proof (induction ws arbitrary: g i)
  case Nil
  then show ?case by simp
next
  case (Cons w ws)
  then show ?case by (fastforce split: sum.splits option.splits)
qed

lemma set_morph_weights_skins: "set_morph_weights g pn ob = Inr g' \<Longrightarrow> skins g' = skins g"
  by (auto simp: set_morph_weights_def Let_def dest: morph_loop_skins
      split: sum.splits obj_data.splits if_splits)

lemma mesh_for_skins: "mesh_for g m pm pn = Inr (g2, bm) \<Longrightarrow> skins g2 = skins g"
  by (auto simp: mesh_for_def Let_def split: sum.splits option.splits)

lemma cmo_reaches_skinning:
  assumes "create_mesh_object g vn = Inr (g', ob)"
    and "py_index_opt (nodes g) (mesh_node_idx vn) = Inr pn"
    and "mesh pn = Some m" and "0 \<le> m" and "m < int (length (meshes g))"
    and "skin pn \<noteq> None"
  shows "\<exists>g4. skins g4 = skins g \<and> setup_skinning g4 pn ob = Inr g'"
proof -
  from assms obtain g2 bm where mf: "mesh_for g m (meshes g ! nat m) pn = Inr (g2, bm)"
    by (auto simp: create_mesh_object_def Let_def split: sum.splits)
  define g3 where
    "g3 = g2\<lparr>objects := objects g2 @
             [new_obj (name_or (name vn) (bm_name (bmeshes g2 ! bm))) (MeshData bm)]\<rparr>"
  from assms mf obtain g4 where
    g4: "(if shapekey_names (meshes g ! nat m) \<noteq> [] then set_morph_weights g3 pn (length (objects g2)) else Inr g3) = Inr g4"
    and g5: "setup_skinning g4 pn (length (objects g2)) = Inr g'"
    and ob: "ob = length (objects g2)"
    unfolding g3_def
    by (auto simp: create_mesh_object_def Let_def objects_new_def split: sum.splits prod.splits)
  have "skins g3 = skins g" using mesh_for_skins [OF mf] by (simp add: g3_def)
  with g4 have "skins g4 = skins g"
    by (auto dest: set_morph_weights_skins split: if_splits)
  with g5 ob show ?thesis by auto
qed

lemma setup_skinning_needs_joint:
  "setup_skinning g pn ob = Inr g' \<Longrightarrow>
   \<exists>sk j. py_index_opt (skins g) (skin pn) = Inr sk \<and> py_index (joints sk) 0 = Inr j"
  by (auto simp: setup_skinning_def split: sum.splits)

lemma fold_res_error:
  "fold_res f xs s = Some (Inr s1) \<Longrightarrow> f c s1 = Some (Inl e) \<Longrightarrow>
   fold_res f (xs @ c # ys) s = Some (Inl e)"
proof (induction xs arbitrary: s)
  case Nil
  then show ?case by simp
next
  case (Cons x xs)
  from Cons.prems(1) obtain s' where s': "f x s = Some (Inr s')"
    and rest: "fold_res f xs s' = Some (Inr s1)"
    by (auto split: option.splits sum.splits)
  from Cons.IH [OF rest Cons.prems(2)] s' show ?case by simp
qed

lemma empty_joints_mesh_object:
  assumes "py_index_opt (nodes g) (mesh_node_idx vn) = Inr pn"
    and "mesh pn = Some m" and "0 \<le> m" and "m < int (length (meshes g))"
    and "py_index_opt (skins g) (skin pn) = Inr sk" and "joints sk = []"
  shows "\<exists>e. create_mesh_object g vn = Inl e"
proof (cases "create_mesh_object g vn")
  case (Inl e)
  then show ?thesis by blast
next
  case (Inr r)
  obtain g' ob' where r: "r = (g', ob')" by (cases r)
  have sk: "skin pn \<noteq> None" using assms(5) by (auto simp: py_index_opt_def split: option.splits)
  from cmo_reaches_skinning [OF Inr [unfolded r] assms(1-4) sk]
  obtain g4 where g4: "skins g4 = skins g" "setup_skinning g4 pn ob' = Inr g'" by blast
  from setup_skinning_needs_joint [OF g4(2)] g4(1) assms(5,6)
  have False by (auto simp: py_index_def)
  then show ?thesis ..
qed

lemma empty_joints_index_error:
  assumes "py_index_opt (nodes g) (mesh_node_idx vn) = Inr pn"
    and "mesh pn = Some m" and "0 \<le> m" and "m < int (length (meshes g))"
    and "py_index_opt (skins g) (skin pn) = Inr sk" and "joints sk = []"
    and "mesh_for g m (meshes g ! nat m) pn = Inr (g2, bm)"
    and "shapekey_names (meshes g ! nat m) = []"
  shows "create_mesh_object g vn = Inl IndexError"
proof -
  have sk: "skin pn \<noteq> None" using assms(5) by (auto simp: py_index_opt_def split: option.splits)
  have s2: "skins g2 = skins g" by (rule mesh_for_skins [OF assms(7)])
  have "setup_skinning
          (g2\<lparr>objects := objects g2 @
               [new_obj (name_or (name vn) (bm_name (bmeshes g2 ! bm))) (MeshData bm)]\<rparr>)
          pn (length (objects g2)) = Inl IndexError"
    using assms(5,6) s2 by (simp add: setup_skinning_def py_index_def)
  with assms(1-4,7,8) sk show ?thesis
    by (simp add: create_mesh_object_def objects_new_def)
qed

lemma empty_joints_object:
  assumes "py_index_opt (nodes g) (mesh_node_idx vn) = Inr pn"
    and "mesh pn = Some m" and "0 \<le> m" and "m < int (length (meshes g))"
    and "py_index_opt (skins g) (skin pn) = Inr sk" and "joints sk = []"
    and "vnodes g vid = Some vn"
  shows "\<exists>e. create_object g vid = Inl e"
proof -
  have mi: "mesh_node_idx vn \<noteq> None"
    using assms(1) by (auto simp: py_index_opt_def split: option.splits)
  from empty_joints_mesh_object [OF assms(1-6)] obtain e where "create_mesh_object g vn = Inl e" ..
  with mi assms(7) have "create_object g vid = Inl e"
    by (simp add: create_object_def get_vnode_def make_object_def)
  then show ?thesis ..
qed

lemma empty_joints_vnode:
  assumes "py_index_opt (nodes g) (mesh_node_idx vn) = Inr pn"
    and "mesh pn = Some m" and "0 \<le> m" and "m < int (length (meshes g))"
    and "py_index_opt (skins g) (skin pn) = Inr sk" and "joints sk = []"
    and "vnodes g vid = Some vn" and "type vn = Object"
  shows "\<exists>e. create_vnode (Suc n) vid g = Some (Inl e)"
proof -
  define g1 where "g1 = g\<lparr>display_current_node := display_current_node g + 1\<rparr>"
  have "\<exists>e. create_object g1 vid = Inl e"
    by (rule empty_joints_object [where vn = vn and pn = pn and m = m and sk = sk])
       (simp_all add: g1_def assms)
  then obtain e where e: "create_object g1 vid = Inl e" ..
  have "\<exists>e'. create_node n vid vn g1 = Some (Inl e')"
    using e assms(8) by (cases "node_of_id g1 vid") (simp_all add: create_node_def)
  then obtain e' where "create_node n vid vn g1 = Some (Inl e')" ..
  with assms(7) have "create_vnode (Suc n) vid g = Some (Inl e')"
    by (simp add: get_vnode_def g1_def)
  then show ?thesis ..
qed

lemma create_vnode_passes_on:
  assumes "vnodes g p = Some pv"
    and "create_node n p pv (g\<lparr>display_current_node := display_current_node g + 1\<rparr>) = Some (Inr g3)"
    and "children pv = xs @ c # ys"
    and "fold_res (create_vnode n) xs g3 = Some (Inr s)"
    and "create_vnode n c s = Some (Inl e)"
  shows "create_vnode (Suc n) p g = Some (Inl e)"
  using assms(1-3) fold_res_error [OF assms(4,5), of ys]
  by (simp add: get_vnode_def)

text \<open>
  C3, amended. For a node with a valid mesh whose skin has an empty joint list,
  \<open>setup_skinning\<close> raises \<open>IndexError\<close>; \<open>create_mesh_object\<close>, \<open>create_object\<close> and
  \<open>create_vnode\<close> on that node end with an exception and return no object (with
  \<open>IndexError\<close> when the mesh is obtained and has no shape keys, so that nothing raises
  before the skinning); and \<open>create_vnode\<close> on a parent ends with the exception that
  \<open>create_vnode\<close> on one of its children raises.
\<close>

theorem empty_joints_raises:
  assumes "py_index_opt (nodes g) (mesh_node_idx vn) = Inr pn"
    and "mesh pn = Some m" and "0 \<le> m" and "m < int (length (meshes g))"
    and "py_index_opt (skins g) (skin pn) = Inr sk" and "joints sk = []"
  shows "setup_skinning g pn ob = Inl IndexError
       \<and> (\<exists>e. create_mesh_object g vn = Inl e)
       \<and> (mesh_for g m (meshes g ! nat m) pn = Inr (g2, bm) \<and>
          shapekey_names (meshes g ! nat m) = [] \<longrightarrow>
            create_mesh_object g vn = Inl IndexError)
       \<and> (vnodes g vid = Some vn \<longrightarrow> (\<exists>e. create_object g vid = Inl e))
       \<and> (vnodes g vid = Some vn \<and> type vn = Object \<longrightarrow>
            (\<exists>e. create_vnode (Suc n) vid g = Some (Inl e)))
       \<and> (vnodes h p = Some pv \<and>
          create_node k p pv (h\<lparr>display_current_node := display_current_node h + 1\<rparr>)
            = Some (Inr h3) \<and>
          children pv = xs @ c # ys \<and>
          fold_res (create_vnode k) xs h3 = Some (Inr s) \<and>
          create_vnode k c s = Some (Inl e') \<longrightarrow>
            create_vnode (Suc k) p h = Some (Inl e'))"
proof (intro conjI impI)
  show "setup_skinning g pn ob = Inl IndexError"
    using assms(5,6) by (simp add: setup_skinning_def py_index_def)
  show "\<exists>e. create_mesh_object g vn = Inl e"
    by (rule empty_joints_mesh_object [OF assms])
  show "create_mesh_object g vn = Inl IndexError"
    if "mesh_for g m (meshes g ! nat m) pn = Inr (g2, bm) \<and>
        shapekey_names (meshes g ! nat m) = []"
    using that by (intro empty_joints_index_error [OF assms]) simp_all
  show "\<exists>e. create_object g vid = Inl e" if "vnodes g vid = Some vn"
    by (rule empty_joints_object [OF assms that])
  show "\<exists>e. create_vnode (Suc n) vid g = Some (Inl e)"
    if "vnodes g vid = Some vn \<and> type vn = Object"
    using that by (intro empty_joints_vnode [OF assms]) simp_all
  show "create_vnode (Suc k) p h = Some (Inl e')"
    if "vnodes h p = Some pv \<and>
          create_node k p pv (h\<lparr>display_current_node := display_current_node h + 1\<rparr>)
            = Some (Inr h3) \<and>
          children pv = xs @ c # ys \<and>
          fold_res (create_vnode k) xs h3 = Some (Inr s) \<and>
          create_vnode k c s = Some (Inl e')"
    using that by (intro create_vnode_passes_on [where pv = pv and xs = xs and c = c and ys = ys
          and s = s and ?g3.0 = h3]) simp_all
qed

text \<open>
  The amended C3 on the sample document: node 0 has mesh 0 and skin 0, whose joint list
  is empty; node 1 is its sibling under the root.
\<close>

theorem empty_joints_raises_witness:
  "setup_skinning (gltf_skin 0 [\<lparr>joints = []\<rparr>]) (pynode0\<lparr>mesh := Some 0, skin := Some 0\<rparr>) 0
     = Inl IndexError \<and>
   create_mesh_object (gltf_skin 0 [\<lparr>joints = []\<rparr>])
     (vnode0\<lparr>mesh_node_idx := Some 0, parent := Some (Synthetic ''root'')\<rparr>) = Inl IndexError \<and>
   (\<exists>e. create_object (gltf_skin 0 [\<lparr>joints = []\<rparr>]) (NodeIdx 0) = Inl e) \<and>
   (\<exists>e. create_vnode 2 (NodeIdx 0) (gltf_skin 0 [\<lparr>joints = []\<rparr>]) = Some (Inl e)) \<and>
   create_vnode 3 (Synthetic ''root'') (gltf_skin 0 [\<lparr>joints = []\<rparr>]) = Some (Inl IndexError)"
proof -
  let ?g = "gltf_skin 0 [\<lparr>joints = []\<rparr>]"
  let ?vn = "vnode0\<lparr>mesh_node_idx := Some 0, parent := Some (Synthetic ''root'')\<rparr>"
  let ?pn = "pynode0\<lparr>mesh := Some 0, skin := Some 0\<rparr>"
  let ?root = "vnode0\<lparr>type := DummyRoot, children := [NodeIdx 0, NodeIdx 1]\<rparr>"
  let ?h3 = "?g\<lparr>display_current_node := display_current_node ?g + 1,
               vnodes := (vnodes ?g)(Synthetic ''root'' \<mapsto> ?root\<lparr>blender_object := None\<rparr>)\<rparr>"
  have a: "py_index_opt (nodes ?g) (mesh_node_idx ?vn) = Inr ?pn" "mesh ?pn = Some 0"
    "(0::int) \<le> 0" "0 < int (length (meshes ?g))"
    "py_index_opt (skins ?g) (skin ?pn) = Inr \<lparr>joints = []\<rparr>" "joints \<lparr>joints = []\<rparr> = []"
    by (simp_all add: gltf_skin_def gltf0_def pynode0_def py_index_opt_def py_index_def)
  have mf: "mesh_for ?g 0 (meshes ?g ! nat 0) ?pn =
              Inr (?g\<lparr>bmeshes := [\<lparr>bm_name = ''Mesh'', key_blocks = (\<lambda>_. None)\<rparr>],
                      meshes := [pymesh0\<lparr>blender_name := [KeySkin (Some 0) \<mapsto> 0]\<rparr>]\<rparr>, 0)"
    by (simp add: gltf_skin_def gltf0_def host0_def pynode0_def pymesh0_def mesh_for_def
        cache_key_of_def Let_def)
  have sk: "shapekey_names (meshes ?g ! nat 0) = []"
    by (simp add: gltf_skin_def pymesh0_def)
  have v: "vnodes ?g (NodeIdx 0) = Some ?vn" "type ?vn = Object"
    by (simp_all add: gltf_skin_def gltf0_def vnode0_def)
  have r: "vnodes ?g (Synthetic ''root'') = Some ?root"
    by (simp add: gltf_skin_def gltf0_def)
  have cn: "create_node 2 (Synthetic ''root'') ?root
              (?g\<lparr>display_current_node := display_current_node ?g + 1\<rparr>) = Some (Inr ?h3)"
    by (simp add: create_node_def upd_vnode_def gltf_skin_def gltf0_def vnode0_def)
  have ch: "children ?root = [] @ NodeIdx 0 # [NodeIdx 1]" by simp
  have f0: "fold_res (create_vnode 2) [] ?h3 = Some (Inr ?h3)" by simp
  have c0: "create_vnode 2 (NodeIdx 0) ?h3 = Some (Inl IndexError)"
    by (simp add: gltf_skin_def eval_defs numeral_2_eq_2)
  note t = empty_joints_raises [OF a, where ob = 0 and vid = "NodeIdx 0" and n = "Suc 0"
      and h = ?g and p = "Synthetic ''root''" and pv = ?root and k = 2 and ?h3.0 = ?h3
      and xs = "[]" and c = "NodeIdx 0" and ys = "[NodeIdx 1]" and s = ?h3 and e' = IndexError
      and ?g2.0 = "?g\<lparr>bmeshes := [\<lparr>bm_name = ''Mesh'', key_blocks = (\<lambda>_. None)\<rparr>],
                      meshes := [pymesh0\<lparr>blender_name := [KeySkin (Some 0) \<mapsto> 0]\<rparr>]\<rparr>"
      and bm = 0]
  from t mf sk v r cn ch f0 c0 show ?thesis
    by (simp only: numeral_2_eq_2 numeral_3_eq_3 simp_thms)
qed

subsection \<open>Nodes without an object of their own\<close>

text \<open>
  C5. On a DummyRoot node \<open>create_vnode\<close> only counts the node and sets its object handle
  to \<open>None\<close>, on a Bone node it only counts the node: in both cases the state handed to
  the loop over the children has the objects, meshes and scene of the state before, and
  what \<open>create_vnode\<close> returns is what the loop over \<open>vnode.children\<close> returns.
\<close>

theorem dummy_root_not_materialized:
  assumes "vnodes g vid = Some vn"
  shows "(type vn = DummyRoot \<longrightarrow>
            create_vnode (Suc n) vid g =
              fold_res (create_vnode n) (children vn)
                (g\<lparr>display_current_node := display_current_node g + 1,
                   vnodes := (vnodes g)(vid \<mapsto> vn\<lparr>blender_object := None\<rparr>)\<rparr>))
       \<and> (type vn = Bone \<longrightarrow>
            create_vnode (Suc n) vid g =
              fold_res (create_vnode n) (children vn)
                (g\<lparr>display_current_node := display_current_node g + 1\<rparr>))"
  using assms by (simp add: get_vnode_def create_node_def upd_vnode_def)

theorem dummy_root_not_materialized_witness:
  "\<exists>g'. create_vnode 2 (Synthetic ''root'') gltf_root = Some (Inr g') \<and>
        map obj_name (objects g') = [''Node'', ''Node''] \<and>
        scene_objects g' = [0, 1] \<and>
        map_option blender_object (vnodes g' (Synthetic ''root'')) = Some None \<and>
        map_option blender_object (vnodes g' (NodeIdx 0)) = Some (Some 0) \<and>
        map_option blender_object (vnodes g' (NodeIdx 1)) = Some (Some 1)"
  using dummy_root_not_materialized [of gltf_root "Synthetic ''root''"
      "vnode0\<lparr>type := DummyRoot, children := [NodeIdx 0, NodeIdx 1], blender_object := Some 7\<rparr>" 1]
  by (simp add: gltf_root_def eval_defs numeral_2_eq_2 sizes_of.simps)

subsection \<open>The bones of an armature\<close>






















subsection \<open>Termination of \<open>create_vnode\<close>\<close>

lemma tree_of_children:
  assumes "tree_of vs' = tree_of vs" and "vs i = Some v"
  shows "\<exists>v'. vs' i = Some v' \<and> children v' = children v \<and> type v' = type v"
proof -
  have "tree_of vs' i = tree_of vs i" using assms(1) by simp
  with assms(2) show ?thesis by (cases "vs' i") (simp_all add: tree_of_def)
qed

lemma child_rel_mono:
  assumes "tree_of vs' = tree_of vs"
  shows "child_rel vs \<subseteq> child_rel vs'"
proof
  fix x assume x: "x \<in> child_rel vs"
  obtain c p where cp: "x = (c, p)" by (cases x)
  from x cp obtain v where v: "vs p = Some v" "c \<in> set (children v)"
    by (auto simp: child_rel_def)
  from tree_of_children [OF assms v(1)] obtain v' where "vs' p = Some v'" "children v' = children v"
    by blast
  with v(2) cp show "x \<in> child_rel vs'" by (auto simp: child_rel_def)
qed

lemma dom_mono:
  assumes "tree_of vs' = tree_of vs"
  shows "dom vs \<subseteq> dom vs'"
proof
  fix i assume "i \<in> dom vs"
  then obtain v where "vs i = Some v" by auto
  from tree_of_children [OF assms this] show "i \<in> dom vs'" by auto
qed

lemma tree_of_eqD:
  assumes "tree_of vs' = tree_of vs"
  shows "child_rel vs' = child_rel vs" "dom vs' = dom vs"
proof -
  have s: "tree_of vs = tree_of vs'" using assms by simp
  show "child_rel vs' = child_rel vs"
    by (rule equalityI) (rule child_rel_mono [OF s], rule child_rel_mono [OF assms])
  show "dom vs' = dom vs"
    by (rule equalityI) (rule dom_mono [OF s], rule dom_mono [OF assms])
qed

lemma depth_left_cong:
  assumes "tree_of vs' = tree_of vs"
  shows "depth_left vs' i = depth_left vs i"
  unfolding depth_left_def ancestors_def tree_of_eqD [OF assms] ..

lemma descendants_cong:
  assumes "tree_of vs' = tree_of vs"
  shows "descendants vs' i = descendants vs i"
  unfolding descendants_def tree_of_eqD [OF assms] ..

lemma child_depth_left:
  assumes fin: "finite (dom vs)" and ac: "acyclic (child_rel vs)"
    and p: "vs p = Some v" and c: "c \<in> set (children v)"
  shows "depth_left vs c < depth_left vs p"
proof -
  have cp: "(c, p) \<in> child_rel vs" using p c by (auto simp: child_rel_def)
  have sub: "ancestors vs p \<subseteq> ancestors vs c"
    using cp by (auto simp: ancestors_def intro: trancl_into_trancl2)
  have pin: "p \<in> ancestors vs c" using cp by (auto simp: ancestors_def)
  have pout: "p \<notin> ancestors vs p" using ac by (auto simp: ancestors_def acyclic_def)
  have pd: "p \<in> dom vs" using p by auto
  have "dom vs - ancestors vs c \<subset> dom vs - ancestors vs p"
    using sub pin pout pd by auto
  then show ?thesis
    unfolding depth_left_def using fin by (intro psubset_card_mono) auto
qed

lemma depth_left_le: "finite (dom vs) \<Longrightarrow> depth_left vs i \<le> card (dom vs)"
  unfolding depth_left_def by (intro card_mono) auto

lemma fold_res_inv:
  assumes "\<And>x s s'. x \<in> set xs \<Longrightarrow> P s \<Longrightarrow> f x s = Some (Inr s') \<Longrightarrow> P s'"
    and "P s" and "fold_res f xs s = Some (Inr s')"
  shows "P s'"
  using assms
proof (induction xs arbitrary: s)
  case Nil
  then show ?case by simp
next
  case (Cons x xs)
  from Cons.prems(3) obtain s1 where s1: "f x s = Some (Inr s1)"
    and rest: "fold_res f xs s1 = Some (Inr s')"
    by (auto split: option.splits sum.splits)
  have p1: "P s1" by (rule Cons.prems(1) [OF _ Cons.prems(2) s1]) simp
  show ?case
  proof (rule Cons.IH [OF _ p1 rest])
    show "\<And>x s s'. x \<in> set xs \<Longrightarrow> P s \<Longrightarrow> f x s = Some (Inr s') \<Longrightarrow> P s'"
      by (rule Cons.prems(1)) auto
  qed
qed

lemma fold_res_terminates:
  assumes "\<And>x s s'. x \<in> set xs \<Longrightarrow> P s \<Longrightarrow> f x s = Some (Inr s') \<Longrightarrow> P s'"
    and "\<And>x s. x \<in> set xs \<Longrightarrow> P s \<Longrightarrow> f x s \<noteq> None"
    and "P s"
  shows "fold_res f xs s \<noteq> None"
  using assms
proof (induction xs arbitrary: s)
  case Nil
  then show ?case by simp
next
  case (Cons x xs)
  have nn: "f x s \<noteq> None" by (rule Cons.prems(2) [OF _ Cons.prems(3)]) simp
  show ?case
  proof (cases "f x s")
    case None
    with nn show ?thesis by simp
  next
    case (Some r)
    show ?thesis
    proof (cases r)
      case (Inl e)
      with Some show ?thesis by simp
    next
      case (Inr s1)
      have p1: "P s1" by (rule Cons.prems(1) [OF _ Cons.prems(3) Some [unfolded Inr]]) simp
      have "fold_res f xs s1 \<noteq> None"
      proof (rule Cons.IH [OF _ _ p1])
        show "\<And>x s s'. x \<in> set xs \<Longrightarrow> P s \<Longrightarrow> f x s = Some (Inr s') \<Longrightarrow> P s'"
          by (rule Cons.prems(1)) auto
        show "\<And>x s. x \<in> set xs \<Longrightarrow> P s \<Longrightarrow> f x s \<noteq> None"
          by (rule Cons.prems(2)) auto
      qed
      with Some Inr show ?thesis by simp
    qed
  qed
qed

lemma visit_terminates:
  assumes fin: "finite (dom vs)" and ac: "acyclic (child_rel vs)"
  shows "depth_left vs c < n \<Longrightarrow> visit n vs c acc \<noteq> None"
proof (induction n arbitrary: c acc)
  case 0
  then show ?case by simp
next
  case (Suc n)
  show ?case
  proof (cases "vs c")
    case None
    then show ?thesis by simp
  next
    case (Some v)
    have "fold_res (visit n vs) (children v) (acc @ [c]) \<noteq> None"
    proof (rule fold_res_terminates [where P = "\<lambda>_. True"])
      fix x s assume "x \<in> set (children v)"
      from child_depth_left [OF fin ac Some this] Suc.prems
      have "depth_left vs x < n" by simp
      then show "visit n vs x s \<noteq> None" by (rule Suc.IH)
    qed simp_all
    with Some show ?thesis by simp
  qed
qed

lemma keeps_refl [simp]: "keeps g g"
  by (simp add: keeps_def)

lemma keeps_trans: "keeps g g1 \<Longrightarrow> keeps g1 g2 \<Longrightarrow> keeps g g2"
  by (simp add: keeps_def)

lemma keeps_upd_obj [simp]: "keeps g (upd_obj h f g)"
  by (simp add: keeps_def upd_obj_frame)

lemma keeps_upd_vnode:
  "(\<And>v. type (f v) = type v \<and> children (f v) = children v) \<Longrightarrow> keeps g (upd_vnode i f g)"
  by (auto simp: keeps_def upd_vnode_def tree_of_def fun_eq_iff split: option.splits)

lemma keeps_objects_new [simp]: "keeps g (fst (objects_new g n d))"
  by (simp add: keeps_def objects_new_def)

lemma morph_loop_keeps: "morph_loop g pm m i ws = Inr g' \<Longrightarrow> keeps g g'"
proof (induction ws arbitrary: g i)
  case Nil
  then show ?case by simp
next
  case (Cons w ws)
  show ?case
  proof (cases "py_index (shapekey_names pm) (int i)")
    case (Inl e)
    with Cons.prems show ?thesis by simp
  next
    case (Inr nmo)
    show ?thesis
    proof (cases nmo)
      case None
      with Inr Cons show ?thesis by simp
    next
      case (Some nm)
      from Cons.prems Inr Some obtain me kb where
        r: "morph_loop (g\<lparr>bmeshes := (bmeshes g)[m := me\<lparr>key_blocks := (key_blocks me)(nm \<mapsto> set_kb w kb)\<rparr>]\<rparr>)
              pm m (Suc i) ws = Inr g'"
        by (auto split: sum.splits option.splits)
      from Cons.IH [OF r] show ?thesis by (simp add: keeps_def)
    qed
  qed
qed

lemma set_morph_weights_keeps: "set_morph_weights g pn ob = Inr g' \<Longrightarrow> keeps g g'"
  by (auto simp: set_morph_weights_def Let_def dest: morph_loop_keeps
      split: sum.splits obj_data.splits if_splits)

lemma setup_skinning_keeps: "setup_skinning g pn ob = Inr g' \<Longrightarrow> keeps g g'"
  by (auto simp: setup_skinning_def split: sum.splits)

lemma mesh_for_keeps: "mesh_for g m pm pn = Inr (g2, bm) \<Longrightarrow> keeps g g2"
  by (auto simp: mesh_for_def Let_def keeps_def split: sum.splits option.splits)

lemma create_mesh_object_keeps:
  assumes "create_mesh_object g vn = Inr (g', ob)"
  shows "keeps g g'"
proof -
  from assms obtain pn m where pn: "py_index_opt (nodes g) (mesh_node_idx vn) = Inr pn"
    and m: "mesh pn = Some m"
    by (auto simp: create_mesh_object_def split: sum.splits option.splits)
  show ?thesis
  proof (cases "0 \<le> m \<and> m < int (length (meshes g))")
    case False
    with assms pn m show ?thesis
      by (auto simp: create_mesh_object_def objects_new_def keeps_def)
  next
    case True
    with assms pn m obtain g2 bm where mf: "mesh_for g m (meshes g ! nat m) pn = Inr (g2, bm)"
      by (auto simp: create_mesh_object_def Let_def split: sum.splits)
    define g3 where
      "g3 = g2\<lparr>objects := objects g2 @
               [new_obj (name_or (name vn) (bm_name (bmeshes g2 ! bm))) (MeshData bm)]\<rparr>"
    from assms pn m True mf obtain g4 where
      g4: "(if shapekey_names (meshes g ! nat m) \<noteq> [] then set_morph_weights g3 pn (length (objects g2)) else Inr g3) = Inr g4"
      and g5: "(if skin pn \<noteq> None then setup_skinning g4 pn (length (objects g2)) else Inr g4) = Inr g'"
      unfolding g3_def
      by (auto simp: create_mesh_object_def Let_def objects_new_def split: sum.splits prod.splits)
    have k2: "keeps g g2" by (rule mesh_for_keeps [OF mf])
    have k3: "keeps g2 g3" by (simp add: g3_def keeps_def)
    have k4: "keeps g3 g4" using g4 by (auto dest: set_morph_weights_keeps split: if_splits)
    have k5: "keeps g4 g'" using g5 by (auto dest: setup_skinning_keeps split: if_splits)
    show ?thesis by (rule keeps_trans [OF keeps_trans [OF keeps_trans [OF k2 k3] k4] k5])
  qed
qed

lemma make_object_keeps: "make_object g vid vn = Inr (g', ob) \<Longrightarrow> keeps g g'"
  by (auto simp: make_object_def objects_new_def keeps_def dest: create_mesh_object_keeps
      split: if_splits sum.splits)

lemma set_parent_keeps: "set_parent g vn ob = Inr g' \<Longrightarrow> keeps g g'"
  by (auto simp: set_parent_def split: option.splits sum.splits if_splits)

lemma create_object_keeps:
  assumes "create_object g vid = Inr (g', ob)"
  shows "keeps g g'"
proof -
  from assms obtain vn g1 where gv: "get_vnode g vid = Inr vn"
    and mo: "make_object g vid vn = Inr (g1, ob)"
    by (auto simp: create_object_def Let_def split: sum.splits)
  define g2 where "g2 = upd_vnode vid (\<lambda>v. v\<lparr>blender_object := Some ob\<rparr>) g1"
  define g3 where "g3 = upd_obj ob (\<lambda>b. b\<lparr>location := trans vn, rotation_quaternion := rot vn,
                                      obj_scale := scale vn\<rparr>) g2"
  from assms gv mo obtain g4 where sp: "set_parent g3 vn ob = Inr g4"
    and g': "g' = g4\<lparr>scene_objects := scene_objects g4 @ [ob]\<rparr>"
    unfolding g2_def g3_def
    by (auto simp: create_object_def Let_def split: sum.splits)
  have k1: "keeps g g1" by (rule make_object_keeps [OF mo])
  have k2: "keeps g1 g2" unfolding g2_def by (rule keeps_upd_vnode) simp
  have k3: "keeps g2 g3" by (simp add: g3_def)
  have k4: "keeps g3 g4" by (rule set_parent_keeps [OF sp])
  have k5: "keeps g4 g'" by (simp add: g' keeps_def)
  show ?thesis
    by (rule keeps_trans [OF keeps_trans [OF keeps_trans [OF keeps_trans [OF k1 k2] k3] k4] k5])
qed

lemma edit_loop_keeps: "edit_loop g h ids = Inr g' \<Longrightarrow> keeps g g'"
proof (induction ids arbitrary: g)
  case Nil
  then show ?case by simp
next
  case (Cons vid ids)
  from Cons.prems obtain vn where vn: "get_vnode g vid = Inr vn"
    by (auto split: sum.splits)
  define g2 where "g2 = upd_vnode vid (\<lambda>v. v\<lparr>blender_bone_name := Some (eb_name (make_editbone vn))\<rparr>)
        (upd_obj h (\<lambda>ob. ob\<lparr>edit_bones := edit_bones ob @ [make_editbone vn]\<rparr>) g)"
  from Cons.prems vn have rest: "edit_loop g2 h ids = Inr g'"
    by (auto simp: Let_def g2_def split: sum.splits)
  have "keeps (upd_obj h (\<lambda>ob. ob\<lparr>edit_bones := edit_bones ob @ [make_editbone vn]\<rparr>) g) g2"
    unfolding g2_def by (rule keeps_upd_vnode) simp
  then have "keeps g g2" by (rule keeps_trans [OF keeps_upd_obj])
  then show ?case by (rule keeps_trans [OF _ Cons.IH [OF rest]])
qed

lemma parent_loop_keeps: "parent_loop g h ids = Inr g' \<Longrightarrow> keeps g g'"
proof (induction ids arbitrary: g)
  case Nil
  then show ?case by simp
next
  case (Cons vid ids)
  from Cons.prems have
    "parent_loop g h ids = Inr g' \<or> (\<exists>f. parent_loop (upd_obj h f g) h ids = Inr g')"
    by (auto split: sum.splits if_splits)
  then show ?case
  proof
    assume "parent_loop g h ids = Inr g'"
    then show ?thesis by (rule Cons.IH)
  next
    assume "\<exists>f. parent_loop (upd_obj h f g) h ids = Inr g'"
    then obtain f where "parent_loop (upd_obj h f g) h ids = Inr g'" ..
    from Cons.IH [OF this] show ?thesis by (rule keeps_trans [OF keeps_upd_obj])
  qed
qed

lemma pose_loop_keeps: "pose_loop g h ids = Inr g' \<Longrightarrow> keeps g g'"
proof (induction ids arbitrary: g)
  case Nil
  then show ?case by simp
next
  case (Cons vid ids)
  from Cons.prems obtain f where "pose_loop (upd_obj h f g) h ids = Inr g'"
    by (auto simp: Let_def split: sum.splits)
  from Cons.IH [OF this] show ?case by (rule keeps_trans [OF keeps_upd_obj])
qed

lemma create_bones_keeps:
  assumes "create_bones n g vid = Some (Inr g')"
  shows "keeps g g'"
proof -
  from assms obtain h ids g1 g2 where e: "edit_loop g h ids = Inr g1"
    and p: "parent_loop g1 h ids = Inr g2"
    and q: "pose_loop (leave_edit_mode h g2) h ids = Inr g'"
    by (auto simp: create_bones_def split: sum.splits option.splits)
  have l: "keeps g2 (leave_edit_mode h g2)"
    unfolding leave_edit_mode_def by (rule keeps_upd_obj)
  show ?thesis
    by (rule keeps_trans [OF keeps_trans [OF keeps_trans [OF edit_loop_keeps [OF e]
          parent_loop_keeps [OF p]] l] pose_loop_keeps [OF q]])
qed

lemma create_bones_terminates:
  assumes fin: "finite (dom (vnodes g))" and ac: "acyclic (child_rel (vnodes g))"
    and d: "depth_left (vnodes g) vid \<le> n"
  shows "create_bones n g vid \<noteq> None"
proof (cases "vnodes g vid")
  case None
  then show ?thesis by (simp add: create_bones_def get_vnode_def)
next
  case (Some arma)
  have "fold_res (visit n (vnodes g)) (children arma) [] \<noteq> None"
  proof (rule fold_res_terminates [where P = "\<lambda>_. True"])
    fix x s assume "x \<in> set (children arma)"
    from child_depth_left [OF fin ac Some this] d
    have "depth_left (vnodes g) x < n" by simp
    then show "visit n (vnodes g) x s \<noteq> None" by (rule visit_terminates [OF fin ac])
  qed simp_all
  with Some show ?thesis
    by (auto simp: create_bones_def get_vnode_def split: option.splits sum.splits)
qed

lemma keeps_forest:
  assumes "keeps g g'"
  shows "finite (dom (vnodes g')) = finite (dom (vnodes g))"
    "acyclic (child_rel (vnodes g')) = acyclic (child_rel (vnodes g))"
    "depth_left (vnodes g') i = depth_left (vnodes g) i"
proof -
  have t: "tree_of (vnodes g') = tree_of (vnodes g)" using assms by (simp add: keeps_def)
  show "finite (dom (vnodes g')) = finite (dom (vnodes g))"
    unfolding tree_of_eqD [OF t] ..
  show "acyclic (child_rel (vnodes g')) = acyclic (child_rel (vnodes g))"
    unfolding tree_of_eqD [OF t] ..
  show "depth_left (vnodes g') i = depth_left (vnodes g) i"
    by (rule depth_left_cong [OF t])
qed

lemma create_node_keeps:
  assumes "create_node n vid vn g1 = Some (Inr g3)"
  shows "keeps g1 g3"
proof (cases "type vn")
  case Object
  with assms obtain g2 ob where co: "create_object g1 vid = Inr (g2, ob)"
    and r: "(if is_arma vn then create_bones n g2 vid else Some (Inr g2)) = Some (Inr g3)"
    by (auto simp: create_node_def split: sum.splits)
  have k: "keeps g1 g2" by (rule create_object_keeps [OF co])
  show ?thesis
  proof (cases "is_arma vn")
    case True
    with r have "create_bones n g2 vid = Some (Inr g3)" by simp
    from keeps_trans [OF k create_bones_keeps [OF this]] show ?thesis .
  next
    case False
    with r k show ?thesis by simp
  qed
next
  case Bone
  with assms show ?thesis by (simp add: create_node_def)
next
  case DummyRoot
  with assms have "g3 = upd_vnode vid (\<lambda>v. v\<lparr>blender_object := None\<rparr>) g1"
    by (simp add: create_node_def)
  then show ?thesis by (simp add: keeps_upd_vnode)
qed

lemma create_node_terminates:
  assumes fin: "finite (dom (vnodes g1))" and ac: "acyclic (child_rel (vnodes g1))"
    and d: "depth_left (vnodes g1) vid \<le> n"
  shows "create_node n vid vn g1 \<noteq> None"
proof (cases "type vn = Object \<and> is_arma vn")
  case False
  then show ?thesis
    by (auto simp: create_node_def split: sum.splits)
next
  case True
  show ?thesis
  proof (cases "create_object g1 vid")
    case (Inl e)
    with True show ?thesis by (simp add: create_node_def split: sum.splits)
  next
    case (Inr r)
    obtain g2 ob where r: "r = (g2, ob)" by (cases r)
    have k: "keeps g1 g2" by (rule create_object_keeps [OF Inr [unfolded r]])
    have "create_bones n g2 vid \<noteq> None"
      by (rule create_bones_terminates) (simp_all add: keeps_forest [OF k] fin ac d)
    with True Inr r show ?thesis by (simp add: create_node_def split: sum.splits)
  qed
qed

lemma create_vnode_cases:
  assumes "create_vnode (Suc n) vid g = Some (Inr g')"
  obtains vn g3 where "vnodes g vid = Some vn"
    "create_node n vid vn (g\<lparr>display_current_node := display_current_node g + 1\<rparr>) = Some (Inr g3)"
    "fold_res (create_vnode n) (children vn) g3 = Some (Inr g')"
  using assms by (auto simp: get_vnode_def split: option.splits sum.splits)

lemma create_vnode_tree:
  "create_vnode n vid g = Some (Inr g') \<Longrightarrow> tree_of (vnodes g') = tree_of (vnodes g)"
proof (induction n arbitrary: vid g g')
  case 0
  then show ?case by simp
next
  case (Suc n)
  from Suc.prems obtain vn g3 where vn: "vnodes g vid = Some vn"
    and b: "create_node n vid vn (g\<lparr>display_current_node := display_current_node g + 1\<rparr>) = Some (Inr g3)"
    and f: "fold_res (create_vnode n) (children vn) g3 = Some (Inr g')"
    by (rule create_vnode_cases)
  have t3: "tree_of (vnodes g3) = tree_of (vnodes g)"
    using create_node_keeps [OF b] by (simp add: keeps_def)
  show ?case
  proof (rule fold_res_inv [where P = "\<lambda>s. tree_of (vnodes s) = tree_of (vnodes g)", OF _ t3 f])
    fix x and s s' :: gltf
    assume "tree_of (vnodes s) = tree_of (vnodes g)" and "create_vnode n x s = Some (Inr s')"
    with Suc.IH [of x s s'] show "tree_of (vnodes s') = tree_of (vnodes g)" by simp
  qed
qed

lemma create_vnode_terminates:
  assumes fin: "finite (dom vs)" and ac: "acyclic (child_rel vs)"
  shows "tree_of (vnodes g) = tree_of vs \<Longrightarrow> depth_left vs vid < n \<Longrightarrow>
         create_vnode n vid g \<noteq> None"
proof (induction n arbitrary: vid g)
  case 0
  then show ?case by simp
next
  case (Suc n)
  note t = Suc.prems(1)
  show ?case
  proof (cases "vnodes g vid")
    case None
    then show ?thesis by (simp add: get_vnode_def)
  next
    case (Some vn)
    define g1 where "g1 = g\<lparr>display_current_node := display_current_node g + 1\<rparr>"
    have t1: "tree_of (vnodes g1) = tree_of vs" using t by (simp add: g1_def)
    have fin1: "finite (dom (vnodes g1))" and ac1: "acyclic (child_rel (vnodes g1))"
      unfolding tree_of_eqD [OF t1] by (rule fin, rule ac)
    have d1: "depth_left (vnodes g1) vid \<le> n"
      using Suc.prems(2) depth_left_cong [OF t1, of vid] by simp
    have nn: "create_node n vid vn g1 \<noteq> None"
      by (rule create_node_terminates [OF fin1 ac1 d1])
    obtain v' where v': "vs vid = Some v'" "children v' = children vn"
      using tree_of_children [OF t [symmetric] Some] by blast
    have kids: "depth_left vs x < n" if "x \<in> set (children vn)" for x
      using child_depth_left [OF fin ac v'(1), of x] that v'(2) Suc.prems(2) by simp
    show ?thesis
    proof (cases "create_node n vid vn g1")
      case None
      with nn show ?thesis by simp
    next
      case (Some r)
      note cn = this
      show ?thesis
      proof (cases r)
        case (Inl e)
        with cn \<open>vnodes g vid = Some vn\<close> show ?thesis by (simp add: get_vnode_def g1_def)
      next
        case (Inr g3)
        have t3: "tree_of (vnodes g3) = tree_of vs"
          using create_node_keeps [OF cn [unfolded Inr]] t1 by (simp add: keeps_def)
        have "fold_res (create_vnode n) (children vn) g3 \<noteq> None"
        proof (rule fold_res_terminates [where P = "\<lambda>s. tree_of (vnodes s) = tree_of vs", OF _ _ t3])
          fix x and s s' :: gltf
          assume "tree_of (vnodes s) = tree_of vs" and "create_vnode n x s = Some (Inr s')"
          with create_vnode_tree [of n x s s'] show "tree_of (vnodes s') = tree_of vs" by simp
        next
          fix x and s :: gltf
          assume "x \<in> set (children vn)" and "tree_of (vnodes s) = tree_of vs"
          with kids show "create_vnode n x s \<noteq> None" by (intro Suc.IH)
        qed
        with cn Inr \<open>vnodes g vid = Some vn\<close> show ?thesis by (simp add: get_vnode_def g1_def)
      qed
    qed
  qed
qed

lemma fold_res_count:
  fixes cnt :: "'s \<Rightarrow> int"
  assumes step: "\<And>x s s'. x \<in> set xs \<Longrightarrow> P s \<Longrightarrow> f x s = Some (Inr s') \<Longrightarrow>
                   P s' \<and> cnt s' \<le> cnt s + int (card (D x))"
    and fin: "\<And>x. x \<in> set xs \<Longrightarrow> finite (D x)"
    and dis: "\<And>x y. x \<in> set xs \<Longrightarrow> y \<in> set xs \<Longrightarrow> x \<noteq> y \<Longrightarrow> D x \<inter> D y = {}"
    and d: "distinct xs" and p: "P s" and r: "fold_res f xs s = Some (Inr s')"
  shows "cnt s' \<le> cnt s + int (card (\<Union>x \<in> set xs. D x))"
  using step fin dis d p r
proof (induction xs arbitrary: s)
  case Nil
  then show ?case by simp
next
  case (Cons x xs)
  from Cons.prems(6) obtain s1 where s1: "f x s = Some (Inr s1)"
    and rest: "fold_res f xs s1 = Some (Inr s')"
    by (auto split: option.splits sum.splits)
  have "P s1 \<and> cnt s1 \<le> cnt s + int (card (D x))"
    by (rule Cons.prems(1) [OF _ Cons.prems(5) s1]) simp
  then have p1: "P s1" and c1: "cnt s1 \<le> cnt s + int (card (D x))" by simp_all
  have xs: "x \<notin> set xs" "distinct xs" using Cons.prems(4) by simp_all
  have c2: "cnt s' \<le> cnt s1 + int (card (\<Union>y \<in> set xs. D y))"
  proof (rule Cons.IH [OF _ _ _ xs(2) p1 rest])
    show "\<And>x s s'. x \<in> set xs \<Longrightarrow> P s \<Longrightarrow> f x s = Some (Inr s') \<Longrightarrow>
            P s' \<and> cnt s' \<le> cnt s + int (card (D x))"
      by (rule Cons.prems(1)) auto
    show "\<And>x. x \<in> set xs \<Longrightarrow> finite (D x)" by (rule Cons.prems(2)) simp
    show "\<And>x y. x \<in> set xs \<Longrightarrow> y \<in> set xs \<Longrightarrow> x \<noteq> y \<Longrightarrow> D x \<inter> D y = {}"
      by (rule Cons.prems(3)) auto
  qed
  have fx: "finite (D x)" by (rule Cons.prems(2)) simp
  have fr: "finite (\<Union>y \<in> set xs. D y)"
  proof (rule finite_UN_I)
    show "finite (set xs)" by simp
    show "\<And>y. y \<in> set xs \<Longrightarrow> finite (D y)" by (rule Cons.prems(2)) simp
  qed
  have dj: "D x \<inter> (\<Union>y \<in> set xs. D y) = {}"
  proof -
    have "D x \<inter> D y = {}" if "y \<in> set xs" for y
    proof (rule Cons.prems(3))
      show "x \<in> set (x # xs)" by simp
      show "y \<in> set (x # xs)" using that by simp
      show "x \<noteq> y" using that xs(1) by auto
    qed
    then show ?thesis by blast
  qed
  have "card (\<Union>y \<in> set (x # xs). D y) = card (D x) + card (\<Union>y \<in> set xs. D y)"
    using card_Un_disjoint [OF fx fr dj] by simp
  with c1 c2 show ?case by simp
qed

lemma descendants_finite: "finite (dom vs) \<Longrightarrow> finite (descendants vs i)"
  by (simp add: descendants_def)

lemma descendants_card: "finite (dom vs) \<Longrightarrow> card (descendants vs i) \<le> card (dom vs)"
  by (rule card_mono) (auto simp: descendants_def)

lemma descendants_child:
  assumes ac: "acyclic (child_rel vs)" and p: "vs p = Some v" and c: "c \<in> set (children v)"
  shows "descendants vs c \<subseteq> descendants vs p" "p \<notin> descendants vs c"
proof -
  have cp: "(c, p) \<in> child_rel vs" using p c by (auto simp: child_rel_def)
  show "descendants vs c \<subseteq> descendants vs p"
    using cp by (auto simp: descendants_def intro: rtrancl_into_rtrancl)
  show "p \<notin> descendants vs c"
  proof
    assume "p \<in> descendants vs c"
    then have pc: "(p, c) \<in> (child_rel vs)\<^sup>*" by (simp add: descendants_def)
    from pc cp have "(p, p) \<in> (child_rel vs)\<^sup>+" by (rule rtrancl_into_trancl1)
    with ac show False by (simp add: acyclic_def)
  qed
qed

lemma siblings_disjoint:
  assumes ac: "acyclic (child_rel vs)" and sv: "single_valued (child_rel vs)"
    and p: "vs p = Some v" and c1: "c1 \<in> set (children v)" and c2: "c2 \<in> set (children v)"
    and ne: "c1 \<noteq> c2"
  shows "descendants vs c1 \<inter> descendants vs c2 = {}"
proof -
  have r1: "(c1, p) \<in> child_rel vs" and r2: "(c2, p) \<in> child_rel vs"
    using p c1 c2 by (auto simp: child_rel_def)
  have no: "(a, b) \<notin> (child_rel vs)\<^sup>*"
    if a: "(a, p) \<in> child_rel vs" and b: "(b, p) \<in> child_rel vs" and "a \<noteq> b" for a b
  proof
    assume "(a, b) \<in> (child_rel vs)\<^sup>*"
    with \<open>a \<noteq> b\<close> have "(a, b) \<in> (child_rel vs)\<^sup>+" by (auto simp: rtrancl_eq_or_trancl)
    then obtain y where y: "(a, y) \<in> child_rel vs" "(y, b) \<in> (child_rel vs)\<^sup>*"
      by (auto dest: tranclD)
    from sv a y(1) have "y = p" by (auto dest: single_valuedD)
    with y(2) b have "(p, p) \<in> (child_rel vs)\<^sup>+" by (auto intro: rtrancl_into_trancl1)
    with ac show False by (simp add: acyclic_def)
  qed
  show ?thesis
  proof (rule ccontr)
    assume "descendants vs c1 \<inter> descendants vs c2 \<noteq> {}"
    then obtain x where x: "(x, c1) \<in> (child_rel vs)\<^sup>*" "(x, c2) \<in> (child_rel vs)\<^sup>*"
      by (auto simp: descendants_def)
    from single_valued_confluent [OF sv x]
    have "(c1, c2) \<in> (child_rel vs)\<^sup>* \<or> (c2, c1) \<in> (child_rel vs)\<^sup>*" .
    with no [OF r1 r2 ne] no [OF r2 r1] ne show False by auto
  qed
qed

lemma create_vnode_count:
  assumes fo: "forest vs"
  shows "tree_of (vnodes g) = tree_of vs \<Longrightarrow> create_vnode n vid g = Some (Inr g') \<Longrightarrow>
         display_current_node g' \<le> display_current_node g + int (card (descendants vs vid))"
proof (induction n arbitrary: vid g g')
  case 0
  then show ?case by simp
next
  case (Suc n)
  from fo have fin: "finite (dom vs)" and ac: "acyclic (child_rel vs)"
    and sv: "single_valued (child_rel vs)"
    and di: "\<And>p v. vs p = Some v \<Longrightarrow> distinct (children v)"
    by (auto simp: forest_def)
  note t = Suc.prems(1)
  from Suc.prems(2) obtain vn g3 where vn: "vnodes g vid = Some vn"
    and b: "create_node n vid vn (g\<lparr>display_current_node := display_current_node g + 1\<rparr>) = Some (Inr g3)"
    and f: "fold_res (create_vnode n) (children vn) g3 = Some (Inr g')"
    by (rule create_vnode_cases)
  obtain v' where v': "vs vid = Some v'" "children v' = children vn"
    using tree_of_children [OF t [symmetric] vn] by blast
  have k: "keeps (g\<lparr>display_current_node := display_current_node g + 1\<rparr>) g3"
    by (rule create_node_keeps [OF b])
  then have t3: "tree_of (vnodes g3) = tree_of vs"
    and c3: "display_current_node g3 = display_current_node g + 1"
    using t by (simp_all add: keeps_def)
  have "display_current_node g' \<le> display_current_node g3 +
          int (card (\<Union>c \<in> set (children vn). descendants vs c))"
  proof (rule fold_res_count [where P = "\<lambda>s. tree_of (vnodes s) = tree_of vs"
        and f = "create_vnode n", OF _ _ _ _ t3 f])
    fix x and s s' :: gltf
    assume "x \<in> set (children vn)" and ts: "tree_of (vnodes s) = tree_of vs"
      and r: "create_vnode n x s = Some (Inr s')"
    from create_vnode_tree [OF r] ts have "tree_of (vnodes s') = tree_of vs" by simp
    moreover have "display_current_node s' \<le> display_current_node s + int (card (descendants vs x))"
      by (rule Suc.IH [OF ts r])
    ultimately show "tree_of (vnodes s') = tree_of vs \<and>
        display_current_node s' \<le> display_current_node s + int (card (descendants vs x))" ..
  next
    show "\<And>x. x \<in> set (children vn) \<Longrightarrow> finite (descendants vs x)"
      by (rule descendants_finite [OF fin])
    show "\<And>x y. x \<in> set (children vn) \<Longrightarrow> y \<in> set (children vn) \<Longrightarrow> x \<noteq> y \<Longrightarrow>
            descendants vs x \<inter> descendants vs y = {}"
      using siblings_disjoint [OF ac sv v'(1)] v'(2) by simp
    show "distinct (children vn)" using di [OF v'(1)] v'(2) by simp
  qed
  moreover have "1 + card (\<Union>c \<in> set (children vn). descendants vs c) \<le> card (descendants vs vid)"
  proof -
    let ?U = "\<Union>c \<in> set (children vn). descendants vs c"
    have sub: "insert vid ?U \<subseteq> descendants vs vid"
      using descendants_child(1) [OF ac v'(1)] v' by (auto simp: descendants_def)
    have notin: "vid \<notin> ?U" using descendants_child(2) [OF ac v'(1)] v'(2) by auto
    have finU: "finite ?U" using fin by (auto simp: descendants_def)
    have "card (insert vid ?U) \<le> card (descendants vs vid)"
      by (rule card_mono [OF descendants_finite [OF fin] sub])
    with notin finU show ?thesis by simp
  qed
  ultimately show ?case using c3 by simp
qed

text \<open>
  C7. On a finite, acyclic virtual-node forest \<open>create_vnode\<close>, started at any id, returns
  (a state or an exception) whenever the bound on the recursion depth exceeds the number of
  virtual nodes; and when it returns a state, the number of nodes it has visited (the
  increase of \<^verbatim>\<open>gltf.display_current_node\<close>) is at most the number of virtual nodes.
\<close>

theorem create_vnode_terminates_bounded:
  assumes "forest (vnodes g)"
  shows "\<forall>n > card (dom (vnodes g)).
           \<exists>r. create_vnode n vid g = Some r \<and>
               (\<forall>g'. r = Inr g' \<longrightarrow>
                  display_current_node g' - display_current_node g \<le> int (card (dom (vnodes g))))"
proof (intro allI impI)
  fix n assume n: "card (dom (vnodes g)) < n"
  from assms have fin: "finite (dom (vnodes g))" and ac: "acyclic (child_rel (vnodes g))"
    by (simp_all add: forest_def)
  have "depth_left (vnodes g) vid < n"
    using depth_left_le [OF fin, of vid] n by simp
  with create_vnode_terminates [OF fin ac refl]
  have "create_vnode n vid g \<noteq> None" .
  then obtain r where r: "create_vnode n vid g = Some r" by auto
  have "display_current_node g' - display_current_node g \<le> int (card (dom (vnodes g)))"
    if "r = Inr g'" for g'
  proof -
    from r that have "create_vnode n vid g = Some (Inr g')" by simp
    from create_vnode_count [OF assms refl this] descendants_card [OF fin, of vid]
    show ?thesis by simp
  qed
  with r show "\<exists>r. create_vnode n vid g = Some r \<and>
               (\<forall>g'. r = Inr g' \<longrightarrow>
                  display_current_node g' - display_current_node g \<le> int (card (dom (vnodes g))))"
    by blast
qed

lemma acyclic_rank:
  fixes f :: "'a \<Rightarrow> nat"
  assumes "\<And>a b. (a, b) \<in> r \<Longrightarrow> f a < f b"
  shows "acyclic r"
proof -
  have s: "r \<subseteq> measure f" using assms by auto
  have a: "acyclic (measure f)" by (rule wf_acyclic) simp
  show ?thesis by (rule acyclic_subset [OF a s])
qed

lemma child_rel_root:
  "child_rel (vnodes gltf_root) = {(NodeIdx 0, Synthetic ''root''), (NodeIdx 1, Synthetic ''root'')}"
  by (auto simp: child_rel_def gltf_root_def gltf0_def vnode0_def split: if_splits)

lemma forest_root: "forest (vnodes gltf_root)"
proof -
  have "acyclic (child_rel (vnodes gltf_root))"
    by (rule acyclic_rank [where f = "\<lambda>i. case i of NodeIdx _ \<Rightarrow> 0 | Synthetic _ \<Rightarrow> 1"])
      (auto simp: child_rel_root)
  moreover have "single_valued (child_rel (vnodes gltf_root))"
    by (auto simp: child_rel_root single_valued_def)
  moreover have "finite (dom (vnodes gltf_root))"
    by (simp add: gltf_root_def gltf0_def)
  moreover have "\<forall>p v. vnodes gltf_root p = Some v \<longrightarrow> distinct (children v)"
    by (auto simp: gltf_root_def gltf0_def vnode0_def split: if_splits)
  ultimately show ?thesis by (simp add: forest_def)
qed

theorem create_vnode_terminates_bounded_witness:
  "forest (vnodes gltf_root) \<and>
   (\<exists>r. create_vnode 4 (Synthetic ''root'') gltf_root = Some r \<and>
        (\<exists>g'. r = Inr g' \<and> display_current_node g' - display_current_node gltf_root \<le> 3))"
proof -
  have c: "card (dom (vnodes gltf_root)) = 3"
    by (simp add: gltf_root_def gltf0_def)
  from create_vnode_terminates_bounded [OF forest_root, of "Synthetic ''root''"] c
  obtain r where r: "create_vnode 4 (Synthetic ''root'') gltf_root = Some r"
    and b: "\<And>g'. r = Inr g' \<Longrightarrow>
              display_current_node g' - display_current_node gltf_root \<le> 3"
    by force
  have "\<exists>g'. create_vnode 4 (Synthetic ''root'') gltf_root = Some (Inr g')"
    by (simp add: gltf_root_def eval_defs eval_nat_numeral)
  with r obtain g' where g': "r = Inr g'" by auto
  from r g' b [OF g'] forest_root show ?thesis by blast
qed

subsection \<open>The mesh cache over a run of the importer\<close>

lemma same_meshes_refl [simp]: "same_meshes g g"
  by (simp add: same_meshes_def)

lemma same_meshes_trans: "same_meshes g g1 \<Longrightarrow> same_meshes g1 g2 \<Longrightarrow> same_meshes g g2"
  by (auto simp: same_meshes_def)

lemma same_meshes_upd_obj:
  "(\<And>ob. obj_data (f ob) = obj_data ob) \<Longrightarrow> same_meshes g (upd_obj h f g)"
  by (simp add: same_meshes_def upd_obj_data)

lemma same_meshes_upd_vnode [simp]: "same_meshes g (upd_vnode i f g)"
  by (simp add: same_meshes_def upd_vnode_def split: option.splits)

lemma same_meshes_objects_new [simp]: "same_meshes g (fst (objects_new g n d))"
  by (simp add: same_meshes_def objects_new_def nth_append)

lemma edit_loop_same: "edit_loop g h ids = Inr g' \<Longrightarrow> same_meshes g g'"
proof (induction ids arbitrary: g)
  case Nil
  then show ?case by simp
next
  case (Cons vid ids)
  from Cons.prems obtain vn where vn: "get_vnode g vid = Inr vn"
    by (auto split: sum.splits)
  define g1 where "g1 = upd_obj h (\<lambda>ob. ob\<lparr>edit_bones := edit_bones ob @ [make_editbone vn]\<rparr>) g"
  define g2 where
    "g2 = upd_vnode vid (\<lambda>v. v\<lparr>blender_bone_name := Some (eb_name (make_editbone vn))\<rparr>) g1"
  from Cons.prems vn have rest: "edit_loop g2 h ids = Inr g'"
    by (auto simp: Let_def g1_def g2_def split: sum.splits)
  have "same_meshes g g1" unfolding g1_def by (rule same_meshes_upd_obj) simp
  moreover have "same_meshes g1 g2" by (simp add: g2_def)
  ultimately have "same_meshes g g2" by (rule same_meshes_trans)
  then show ?case by (rule same_meshes_trans [OF _ Cons.IH [OF rest]])
qed

lemma parent_loop_same: "parent_loop g h ids = Inr g' \<Longrightarrow> same_meshes g g'"
proof (induction ids arbitrary: g)
  case Nil
  then show ?case by simp
next
  case (Cons vid ids)
  from Cons.prems have
    "parent_loop g h ids = Inr g' \<or>
     (\<exists>p q. parent_loop
               (upd_obj h (\<lambda>ob. ob\<lparr>edit_bones := set_bone_parent p q (edit_bones ob)\<rparr>) g)
               h ids = Inr g')"
    by (auto split: sum.splits if_splits)
  then show ?case
  proof
    assume "parent_loop g h ids = Inr g'"
    then show ?thesis by (rule Cons.IH)
  next
    assume "\<exists>p q. parent_loop
               (upd_obj h (\<lambda>ob. ob\<lparr>edit_bones := set_bone_parent p q (edit_bones ob)\<rparr>) g)
               h ids = Inr g'"
    then obtain p q where r: "parent_loop
               (upd_obj h (\<lambda>ob. ob\<lparr>edit_bones := set_bone_parent p q (edit_bones ob)\<rparr>) g)
               h ids = Inr g'"
      by (elim exE)
    have "same_meshes g (upd_obj h (\<lambda>ob. ob\<lparr>edit_bones := set_bone_parent p q (edit_bones ob)\<rparr>) g)"
      by (rule same_meshes_upd_obj) simp
    then show ?thesis by (rule same_meshes_trans [OF _ Cons.IH [OF r]])
  qed
qed

lemma pose_loop_same: "pose_loop g h ids = Inr g' \<Longrightarrow> same_meshes g g'"
proof (induction ids arbitrary: g)
  case Nil
  then show ?case by simp
next
  case (Cons vid ids)
  from Cons.prems obtain nm pb where
    r: "pose_loop (upd_obj h (\<lambda>ob. ob\<lparr>pose_bones := (pose_bones ob)(nm \<mapsto> pb)\<rparr>) g) h ids = Inr g'"
    by (auto simp: Let_def split: sum.splits)
  have "same_meshes g (upd_obj h (\<lambda>ob. ob\<lparr>pose_bones := (pose_bones ob)(nm \<mapsto> pb)\<rparr>) g)"
    by (rule same_meshes_upd_obj) simp
  then show ?case by (rule same_meshes_trans [OF _ Cons.IH [OF r]])
qed

lemma create_bones_same:
  assumes "create_bones n g vid = Some (Inr g')"
  shows "same_meshes g g'"
proof -
  from assms obtain h ids g1 g2 where e: "edit_loop g h ids = Inr g1"
    and p: "parent_loop g1 h ids = Inr g2"
    and q: "pose_loop (leave_edit_mode h g2) h ids = Inr g'"
    by (auto simp: create_bones_def split: sum.splits option.splits)
  have l: "same_meshes g2 (leave_edit_mode h g2)"
    unfolding leave_edit_mode_def by (rule same_meshes_upd_obj) simp
  show ?thesis
    by (rule same_meshes_trans [OF same_meshes_trans [OF same_meshes_trans [OF edit_loop_same [OF e]
          parent_loop_same [OF p]] l] pose_loop_same [OF q]])
qed

lemma set_parent_same: "set_parent g vn ob = Inr g' \<Longrightarrow> same_meshes g g'"
  by (auto simp: set_parent_def intro!: same_meshes_upd_obj split: option.splits sum.splits if_splits)

lemma cached_same: "meshes g' = meshes g \<Longrightarrow> cached g' = cached g"
  by (simp add: cached_def fun_eq_iff)

lemma cache_okD:
  assumes "cache_ok g"
  shows "cached g i k = Some b \<Longrightarrow> b < length (bmeshes g)"
    and "cached g i k = Some b \<Longrightarrow> cached g j l = Some b \<Longrightarrow> i = j \<and> k = l"
  using assms unfolding cache_ok_def by blast+

lemma cache_ok_same:
  assumes ok: "cache_ok g" and m: "meshes g' = meshes g"
    and l: "length (bmeshes g) \<le> length (bmeshes g')"
  shows "cache_ok g'"
proof -
  have c: "cached g' = cached g" by (rule cached_same [OF m])
  show ?thesis
    unfolding cache_ok_def c
  proof (intro conjI allI impI)
    fix i k b assume "cached g i k = Some b"
    from cache_okD(1) [OF ok this] l show "b < length (bmeshes g')" by simp
  next
    fix i j k l' b assume "cached g i k = Some b \<and> cached g j l' = Some b"
    then have "cached g i k = Some b" "cached g j l' = Some b" by simp_all
    then have e: "i = j \<and> k = l'" by (rule cache_okD(2) [OF ok])
    from e show "i = j" ..
    from e show "k = l'" ..
  qed
qed

lemma grows_refl: "cache_ok g \<Longrightarrow> grows g g"
  by (simp add: grows_def)

lemma grows_ok: "grows g g' \<Longrightarrow> cache_ok g'"
  by (simp add: grows_def)

lemma grows_trans:
  assumes a: "grows g g1" and b: "grows g1 g2"
  shows "grows g g2"
proof -
  have c1: "cached g2 i k = Some b" if "cached g i k = Some b" for i k b
  proof -
    from a that have "cached g1 i k = Some b" unfolding grows_def by blast
    with b show ?thesis unfolding grows_def by blast
  qed
  have c2: "cached g i k = Some b \<or> length (bmeshes g) \<le> b" if "cached g2 i k = Some b" for i k b
  proof -
    from b that have "cached g1 i k = Some b \<or> length (bmeshes g1) \<le> b"
      unfolding grows_def by blast
    then show ?thesis
    proof
      assume "cached g1 i k = Some b"
      with a show ?thesis unfolding grows_def by blast
    next
      assume "length (bmeshes g1) \<le> b"
      moreover from a have "length (bmeshes g) \<le> length (bmeshes g1)" by (simp add: grows_def)
      ultimately show ?thesis by simp
    qed
  qed
  have s: "shapekey_names (meshes g2 ! i) = shapekey_names (meshes g ! i)"
    if "i < length (meshes g)" for i
    using a b that by (simp add: grows_def)
  have d: "obj_data (objects g2 ! i) = obj_data (objects g ! i)" if "i < length (objects g)" for i
    using a b that by (simp add: grows_def)
  from a b have r: "cache_ok g2" "nodes g2 = nodes g" "length (meshes g2) = length (meshes g)"
    "length (bmeshes g) \<le> length (bmeshes g2)" "length (objects g) \<le> length (objects g2)"
    by (simp_all add: grows_def)
  show ?thesis
    unfolding grows_def
    apply (intro conjI allI impI)
            apply (rule r(1))
           apply (rule r(2))
          apply (rule r(3))
         apply (erule s)
        apply (rule r(4))
       apply (rule r(5))
      apply (erule d)
     apply (erule c1)
    apply (erule c2)
    done
qed

lemma same_meshes_grows:
  assumes "cache_ok g" and "same_meshes g g'"
  shows "grows g g'"
proof -
  from assms(2) have m: "meshes g' = meshes g" and l: "length (bmeshes g') = length (bmeshes g)"
    by (simp_all add: same_meshes_def)
  have "cache_ok g'" by (rule cache_ok_same [OF assms(1) m]) (simp add: l)
  with assms(2) show ?thesis
    by (simp add: grows_def same_meshes_def cached_same [OF m])
qed

lemma cached_update:
  "i0 < length (meshes g) \<Longrightarrow>
   cached (g\<lparr>bmeshes := B,
             meshes := (meshes g)[i0 := (meshes g ! i0)
                          \<lparr>blender_name := (blender_name (meshes g ! i0))(k0 \<mapsto> v)\<rparr>]\<rparr>) i k =
   (if i = i0 \<and> k = k0 then Some v else cached g i k)"
  by (simp add: cached_def nth_list_update)

text \<open>What \<open>mesh_for\<close> returns, by the cache entry of the key.\<close>

lemma mesh_for_result_none:
  assumes mf: "mesh_for g m pm pn = Inr (g2, bm)" and k: "cache_key_of pm pn = None"
  shows "\<exists>me. g2 = g\<lparr>bmeshes := bmeshes g @ [me]\<rparr> \<and> bm = length (bmeshes g)"
  using mf k
  by (cases "mesh_create (ext g) m (skin pn)") (auto simp: mesh_for_def Let_def)

lemma mesh_for_result_hit:
  assumes mf: "mesh_for g m pm pn = Inr (g2, bm)" and k: "cache_key_of pm pn = Some k"
    and c: "blender_name pm k = Some b"
  shows "bm = b \<and> g2 = g \<and> b < length (bmeshes g)"
proof (cases "b < length (bmeshes g)")
  case True
  with mf k c show ?thesis by (simp add: mesh_for_def Let_def get_bmesh_def)
next
  case False
  with mf k c show ?thesis by (simp add: mesh_for_def Let_def get_bmesh_def)
qed

lemma mesh_for_result_miss:
  assumes mf: "mesh_for g m pm pn = Inr (g2, bm)" and k: "cache_key_of pm pn = Some k"
    and c: "blender_name pm k = None"
  shows "\<exists>me. g2 = g\<lparr>bmeshes := bmeshes g @ [me],
                 meshes := (meshes g)[nat m := pm
                    \<lparr>blender_name := (blender_name pm)(k \<mapsto> length (bmeshes g))\<rparr>]\<rparr> \<and>
         bm = length (bmeshes g)"
  using mf k c
  by (cases "mesh_create (ext g) m (skin pn)") (auto simp: mesh_for_def Let_def)

lemma mesh_for_result:
  assumes lt: "nat m < length (meshes g)"
    and mf: "mesh_for g m (meshes g ! nat m) pn = Inr (g2, bm)"
  shows "objects g2 = objects g \<and> nodes g2 = nodes g \<and>
         (case cache_key_of (meshes g ! nat m) pn of
            None \<Rightarrow> bm = length (bmeshes g) \<and> length (bmeshes g2) = Suc (length (bmeshes g)) \<and>
                    meshes g2 = meshes g
          | Some k \<Rightarrow>
              (case cached g (nat m) k of
                 Some b \<Rightarrow> bm = b \<and> g2 = g \<and> b < length (bmeshes g)
               | None \<Rightarrow> bm = length (bmeshes g) \<and>
                         length (bmeshes g2) = Suc (length (bmeshes g)) \<and>
                         length (meshes g2) = length (meshes g) \<and>
                         (\<forall>i. i < length (meshes g) \<longrightarrow>
                            shapekey_names (meshes g2 ! i) = shapekey_names (meshes g ! i)) \<and>
                         (\<forall>i k'. cached g2 i k' =
                            (if i = nat m \<and> k' = k then Some bm else cached g i k'))))"
proof (cases "cache_key_of (meshes g ! nat m) pn")
  case None
  from mesh_for_result_none [OF mf None] obtain me where
    "g2 = g\<lparr>bmeshes := bmeshes g @ [me]\<rparr>" "bm = length (bmeshes g)" by (elim exE conjE)
  with None show ?thesis by simp
next
  case (Some k)
  note key = this
  have cb: "cached g (nat m) k = blender_name (meshes g ! nat m) k"
    using lt by (simp add: cached_def)
  show ?thesis
  proof (cases "blender_name (meshes g ! nat m) k")
    case (Some b)
    from mesh_for_result_hit [OF mf key Some] key Some show ?thesis by (simp add: cb)
  next
    case None
    from mesh_for_result_miss [OF mf key None] obtain me where
      g2: "g2 = g\<lparr>bmeshes := bmeshes g @ [me],
                 meshes := (meshes g)[nat m := (meshes g ! nat m)
                    \<lparr>blender_name := (blender_name (meshes g ! nat m))(k \<mapsto> length (bmeshes g))\<rparr>]\<rparr>"
      and bm: "bm = length (bmeshes g)"
      by (elim exE conjE)
    have c: "cached g2 i k' = (if i = nat m \<and> k' = k then Some bm else cached g i k')" for i k'
      unfolding g2 bm by (rule cached_update [OF lt])
    have s: "shapekey_names (meshes g2 ! i) = shapekey_names (meshes g ! i)"
      if "i < length (meshes g)" for i
      using that lt by (cases "i = nat m") (simp_all add: g2)
    have o: "objects g2 = objects g" "nodes g2 = nodes g"
      "length (bmeshes g2) = Suc (length (bmeshes g))" "length (meshes g2) = length (meshes g)"
      by (simp_all add: g2)
    show ?thesis
      unfolding key option.case cb None
      apply (intro conjI allI impI)
            apply (rule o(1))
           apply (rule o(2))
          apply (rule bm)
         apply (rule o(3))
        apply (rule o(4))
       apply (erule s)
      apply (rule c)
      done
  qed
qed

lemma mesh_for_grows:
  assumes ok: "cache_ok g" and lt: "nat m < length (meshes g)"
    and mf: "mesh_for g m (meshes g ! nat m) pn = Inr (g2, bm)"
  shows "grows g g2"
proof -
  note r = mesh_for_result [OF lt mf]
  show ?thesis
  proof (cases "cache_key_of (meshes g ! nat m) pn")
    case None
    with r have m: "meshes g2 = meshes g" and l: "length (bmeshes g2) = Suc (length (bmeshes g))"
      and f: "objects g2 = objects g" "nodes g2 = nodes g" by simp_all
    have "cache_ok g2" by (rule cache_ok_same [OF ok m]) (simp add: l)
    then show ?thesis by (simp add: grows_def m l f cached_same [OF m])
  next
    case (Some k)
    show ?thesis
    proof (cases "cached g (nat m) k")
      case (Some b)
      with \<open>cache_key_of (meshes g ! nat m) pn = Some k\<close> r have "g2 = g" by simp
      with ok show ?thesis by (simp add: grows_refl)
    next
      case None
      with \<open>cache_key_of (meshes g ! nat m) pn = Some k\<close> r have
        bm: "bm = length (bmeshes g)" and l: "length (bmeshes g2) = Suc (length (bmeshes g))"
        and lm: "length (meshes g2) = length (meshes g)"
        and s: "\<And>i. i < length (meshes g) \<Longrightarrow>
                  shapekey_names (meshes g2 ! i) = shapekey_names (meshes g ! i)"
        and c: "\<And>i k'. cached g2 i k' = (if i = nat m \<and> k' = k then Some bm else cached g i k')"
        and f: "objects g2 = objects g" "nodes g2 = nodes g"
        by simp_all
      have bound: "b < length (bmeshes g)" if "cached g i k' = Some b" for i k' b
        using ok that unfolding cache_ok_def by blast
      have inj: "i = j \<and> k' = l'" if "cached g i k' = Some b" "cached g j l' = Some b"
        for i j k' l' b
        using ok that unfolding cache_ok_def by blast
      have ok2: "cache_ok g2"
        unfolding cache_ok_def
      proof (intro conjI allI impI)
        fix i k' b assume "cached g2 i k' = Some b"
        then show "b < length (bmeshes g2)"
          using bound [of i k' b] by (auto simp: c l bm split: if_splits)
      next
        fix i j k' l' b assume "cached g2 i k' = Some b \<and> cached g2 j l' = Some b"
        then have x: "cached g2 i k' = Some b" and y: "cached g2 j l' = Some b" by simp_all
        show "i = j" using x y bound [of i k' b] bound [of j l' b] inj [of i k' b j l']
          by (auto simp: c bm split: if_splits)
        show "k' = l'" using x y bound [of i k' b] bound [of j l' b] inj [of i k' b j l']
          by (auto simp: c bm split: if_splits)
      qed
      have p: "cached g2 i k' = Some b" if "cached g i k' = Some b" for i k' b
        using that None by (auto simp: c)
      have q: "cached g i k' = Some b \<or> length (bmeshes g) \<le> b" if "cached g2 i k' = Some b"
        for i k' b
        using that by (auto simp: c bm split: if_splits)
      show ?thesis
        unfolding grows_def
        apply (intro conjI allI impI)
                apply (rule ok2)
               apply (rule f(2))
              apply (rule lm)
             apply (erule s)
            apply (simp add: l)
           apply (simp add: f(1))
          apply (simp add: f(1))
         apply (erule p)
        apply (erule q)
        done
    qed
  qed
qed

lemma create_mesh_object_grows:
  assumes ok: "cache_ok g" and c: "create_mesh_object g vn = Inr (g', ob)"
  shows "grows g g'"
proof -
  from c obtain pn m where pn: "py_index_opt (nodes g) (mesh_node_idx vn) = Inr pn"
    and m: "mesh pn = Some m"
    by (auto simp: create_mesh_object_def split: sum.splits option.splits)
  show ?thesis
  proof (cases "0 \<le> m \<and> m < int (length (meshes g))")
    case False
    with c pn m have "g' = fst (objects_new g (name_or (name vn) ''Invalid Mesh Index'') NoData)"
      by (auto simp: create_mesh_object_def)
    then have "same_meshes g g'" by simp
    with ok show ?thesis by (rule same_meshes_grows)
  next
    case True
    then have m0: "0 \<le> m" and m1: "m < int (length (meshes g))" by simp_all
    from cmo_valid [OF c pn m m0 m1] obtain g2 bm where
      mf: "mesh_for g m (meshes g ! nat m) pn = Inr (g2, bm)"
      and r: "length (objects g') = Suc (length (objects g))"
        "\<forall>i<length (objects g). obj_data (objects g' ! i) = obj_data (objects g ! i)"
        "objects g2 = objects g" "meshes g' = meshes g2" "nodes g' = nodes g2"
        "length (bmeshes g') = length (bmeshes g2)"
      by blast
    have lt: "nat m < length (meshes g)" using m0 m1 by linarith
    have k1: "grows g g2" by (rule mesh_for_grows [OF ok lt mf])
    have "same_meshes g2 g'" using r by (simp add: same_meshes_def)
    with grows_ok [OF k1] have k2: "grows g2 g'" by (rule same_meshes_grows)
    show ?thesis by (rule grows_trans [OF k1 k2])
  qed
qed

lemma make_object_grows:
  assumes ok: "cache_ok g" and mo: "make_object g vid vn = Inr (g', ob)"
  shows "grows g g'"
proof (cases "mesh_node_idx vn \<noteq> None")
  case True
  with mo have "create_mesh_object g vn = Inr (g', ob)" by (simp add: make_object_def)
  with ok show ?thesis by (rule create_mesh_object_grows)
next
  case False
  have n: "same_meshes g g1" if "objects_new g n d = (g1, h)" for n d g1 h
    using that by (auto simp: objects_new_def same_meshes_def nth_append)
  have u: "same_meshes g (upd_obj h' (\<lambda>ob. ob\<lparr>empty_display_size := sz\<rparr>) g1)"
    if "objects_new g n d = (g1, h)" for n d g1 h h' sz
    by (rule same_meshes_trans [OF n [OF that]]) (rule same_meshes_upd_obj, simp)
  from False mo have "same_meshes g g'"
    by (auto simp: make_object_def split: if_splits sum.splits prod.splits intro: n u)
  with ok show ?thesis by (rule same_meshes_grows)
qed

lemma create_object_grows:
  assumes ok: "cache_ok g" and co: "create_object g vid = Inr (g', ob)"
  shows "grows g g'"
proof -
  from co obtain vn g1 where gv: "get_vnode g vid = Inr vn"
    and mo: "make_object g vid vn = Inr (g1, ob)"
    by (auto simp: create_object_def Let_def split: sum.splits)
  define g2 where "g2 = upd_vnode vid (\<lambda>v. v\<lparr>blender_object := Some ob\<rparr>) g1"
  define g3 where "g3 = upd_obj ob (\<lambda>b. b\<lparr>location := trans vn, rotation_quaternion := rot vn,
                                      obj_scale := scale vn\<rparr>) g2"
  from co gv mo obtain g4 where sp: "set_parent g3 vn ob = Inr g4"
    and g': "g' = g4\<lparr>scene_objects := scene_objects g4 @ [ob]\<rparr>"
    unfolding g2_def g3_def
    by (auto simp: create_object_def Let_def split: sum.splits)
  have k1: "grows g g1" by (rule make_object_grows [OF ok mo])
  have s2: "same_meshes g1 g2" by (simp add: g2_def)
  have s3: "same_meshes g2 g3" unfolding g3_def by (rule same_meshes_upd_obj) simp
  have s4: "same_meshes g3 g4" by (rule set_parent_same [OF sp])
  have s5: "same_meshes g4 g'" by (simp add: g' same_meshes_def)
  have "same_meshes g1 g'"
    by (rule same_meshes_trans [OF same_meshes_trans [OF same_meshes_trans [OF s2 s3] s4] s5])
  with grows_ok [OF k1] have "grows g1 g'" by (rule same_meshes_grows)
  with k1 show ?thesis by (rule grows_trans)
qed

lemma create_node_grows:
  assumes ok: "cache_ok g1" and cn: "create_node n vid vn g1 = Some (Inr g3)"
  shows "grows g1 g3"
proof (cases "type vn")
  case Object
  with cn obtain g2 ob where co: "create_object g1 vid = Inr (g2, ob)"
    and r: "(if is_arma vn then create_bones n g2 vid else Some (Inr g2)) = Some (Inr g3)"
    by (auto simp: create_node_def split: sum.splits)
  have k: "grows g1 g2" by (rule create_object_grows [OF ok co])
  show ?thesis
  proof (cases "is_arma vn")
    case True
    with r have "create_bones n g2 vid = Some (Inr g3)" by simp
    then have "same_meshes g2 g3" by (rule create_bones_same)
    with grows_ok [OF k] have "grows g2 g3" by (rule same_meshes_grows)
    with k show ?thesis by (rule grows_trans)
  next
    case False
    with r k show ?thesis by simp
  qed
next
  case Bone
  with cn ok show ?thesis by (simp add: create_node_def grows_refl)
next
  case DummyRoot
  with cn have "g3 = upd_vnode vid (\<lambda>v. v\<lparr>blender_object := None\<rparr>) g1"
    by (simp add: create_node_def)
  then have "same_meshes g1 g3" by simp
  with ok show ?thesis by (rule same_meshes_grows)
qed

lemma create_vnode_grows:
  "cache_ok g \<Longrightarrow> create_vnode n vid g = Some (Inr g') \<Longrightarrow> grows g g'"
proof (induction n arbitrary: vid g g')
  case 0
  then show ?case by simp
next
  case (Suc n)
  define g1 where "g1 = g\<lparr>display_current_node := display_current_node g + 1\<rparr>"
  from Suc.prems(2) obtain vn g3 where vn: "vnodes g vid = Some vn"
    and b: "create_node n vid vn g1 = Some (Inr g3)"
    and f: "fold_res (create_vnode n) (children vn) g3 = Some (Inr g')"
    unfolding g1_def by (rule create_vnode_cases)
  have "same_meshes g g1" by (simp add: g1_def same_meshes_def)
  with Suc.prems(1) have k1: "grows g g1" by (rule same_meshes_grows)
  have k3: "grows g1 g3" by (rule create_node_grows [OF grows_ok [OF k1] b])
  have k: "grows g g3" by (rule grows_trans [OF k1 k3])
  show ?case
  proof (rule fold_res_inv [where P = "\<lambda>s. grows g s", OF _ k f])
    fix x and s s' :: gltf
    assume s: "grows g s" and c: "create_vnode n x s = Some (Inr s')"
    have "grows s s'" by (rule Suc.IH [OF grows_ok [OF s] c])
    with s show "grows g s'" by (rule grows_trans)
  qed
qed

lemma run_grows: "run g g' \<Longrightarrow> cache_ok g \<Longrightarrow> grows g g'"
proof (induction rule: run.induct)
  case (run_refl g)
  then show ?case by (rule grows_refl)
next
  case (run_vnode g g1 n vid g2)
  have k: "grows g g1" by (rule run_vnode.IH [OF run_vnode.prems])
  have "grows g1 g2" by (rule create_vnode_grows [OF grows_ok [OF k] run_vnode.hyps(2)])
  with k show ?case by (rule grows_trans)
next
  case (run_object g g1 vid g2 ob)
  have k: "grows g g1" by (rule run_object.IH [OF run_object.prems])
  have "grows g1 g2" by (rule create_object_grows [OF grows_ok [OF k] run_object.hyps(2)])
  with k show ?case by (rule grows_trans)
next
  case (run_mesh_object g g1 vn g2 ob)
  have k: "grows g g1" by (rule run_mesh_object.IH [OF run_mesh_object.prems])
  have "grows g1 g2"
    by (rule create_mesh_object_grows [OF grows_ok [OF k] run_mesh_object.hyps(2)])
  with k show ?case by (rule grows_trans)
qed

lemma growsD:
  assumes "grows g g'"
  shows "nodes g' = nodes g" "length (meshes g') = length (meshes g)"
    "i < length (meshes g) \<Longrightarrow> shapekey_names (meshes g' ! i) = shapekey_names (meshes g ! i)"
    "length (bmeshes g) \<le> length (bmeshes g')" "length (objects g) \<le> length (objects g')"
    "j < length (objects g) \<Longrightarrow> obj_data (objects g' ! j) = obj_data (objects g ! j)"
    "cached g i k = Some b \<Longrightarrow> cached g' i k = Some b"
    "cached g' i k = Some b \<Longrightarrow> cached g i k = Some b \<or> length (bmeshes g) \<le> b"
  using assms unfolding grows_def by blast+

text \<open>
  What one call of \<open>create_mesh_object\<close> does for a node with a valid mesh index, by the
  cache entry of the key of the node.
\<close>

lemma cmo_cache:
  assumes c: "create_mesh_object g vn = Inr (g', ob)"
    and pn: "py_index_opt (nodes g) (mesh_node_idx vn) = Inr pn"
    and m: "mesh pn = Some m" "0 \<le> m" "m < int (length (meshes g))"
  shows "ob = length (objects g) \<and> length (objects g') = Suc (length (objects g)) \<and>
         (case cache_key_of (meshes g ! nat m) pn of
            None \<Rightarrow> obj_data (objects g' ! ob) = MeshData (length (bmeshes g)) \<and>
                    length (bmeshes g') = Suc (length (bmeshes g)) \<and> meshes g' = meshes g
          | Some k \<Rightarrow>
              (case cached g (nat m) k of
                 Some b \<Rightarrow> obj_data (objects g' ! ob) = MeshData b \<and>
                           length (bmeshes g') = length (bmeshes g) \<and> meshes g' = meshes g \<and>
                           b < length (bmeshes g)
               | None \<Rightarrow> obj_data (objects g' ! ob) = MeshData (length (bmeshes g)) \<and>
                         length (bmeshes g') = Suc (length (bmeshes g)) \<and>
                         (\<forall>i k'. cached g' i k' =
                            (if i = nat m \<and> k' = k then Some (length (bmeshes g))
                             else cached g i k'))))"
proof -
  from cmo_valid [OF c pn m] obtain g2 bm where
    mf: "mesh_for g m (meshes g ! nat m) pn = Inr (g2, bm)"
    and r: "ob = length (objects g)" "length (objects g') = Suc (length (objects g))"
      "obj_data (objects g' ! ob) = MeshData bm"
      "meshes g' = meshes g2" "length (bmeshes g') = length (bmeshes g2)"
    by blast
  have lt: "nat m < length (meshes g)" using m(2,3) by linarith
  note x = mesh_for_result [OF lt mf]
  have cs: "cached g' = cached g2" by (rule cached_same [OF r(4)])
  show ?thesis
  proof (cases "cache_key_of (meshes g ! nat m) pn")
    case None
    with x r show ?thesis by simp
  next
    case (Some k)
    show ?thesis
    proof (cases "cached g (nat m) k")
      case None
      with Some x r show ?thesis by (simp add: cs)
    next
      case (Some b)
      with \<open>cache_key_of (meshes g ! nat m) pn = Some k\<close> x r show ?thesis by simp
    qed
  qed
qed

lemma cmo_entry:
  assumes c: "create_mesh_object g vn = Inr (g', ob)"
    and pn: "py_index_opt (nodes g) (mesh_node_idx vn) = Inr pn"
    and m: "mesh pn = Some m" "0 \<le> m" "m < int (length (meshes g))"
  shows "\<exists>bm. obj_data (objects g' ! ob) = MeshData bm \<and> bm < length (bmeshes g') \<and>
           (\<forall>k. cache_key_of (meshes g ! nat m) pn = Some k \<longrightarrow>
                cached g' (nat m) k = Some bm) \<and>
           (cache_key_of (meshes g ! nat m) pn = None \<longrightarrow>
              bm = length (bmeshes g) \<and> cached g' = cached g)"
proof -
  note x = conjunct2 [OF conjunct2 [OF cmo_cache [OF c pn m]]]
  show ?thesis
  proof (cases "cache_key_of (meshes g ! nat m) pn")
    case None
    with x have d: "obj_data (objects g' ! ob) = MeshData (length (bmeshes g))"
      and l: "length (bmeshes g') = Suc (length (bmeshes g))" and e: "meshes g' = meshes g"
      by simp_all
    show ?thesis
      by (rule exI [of _ "length (bmeshes g)"]) (simp add: d l None cached_same [OF e])
  next
    case (Some k)
    note key = this
    show ?thesis
    proof (cases "cached g (nat m) k")
      case None
      with key x have d: "obj_data (objects g' ! ob) = MeshData (length (bmeshes g))"
        and l: "length (bmeshes g') = Suc (length (bmeshes g))"
        and e: "cached g' (nat m) k = Some (length (bmeshes g))"
        by simp_all
      show ?thesis
        by (rule exI [of _ "length (bmeshes g)"]) (simp add: d l key e)
    next
      case (Some b)
      with key x have d: "obj_data (objects g' ! ob) = MeshData b"
        and l: "length (bmeshes g') = length (bmeshes g)" and e: "meshes g' = meshes g"
        and lt: "b < length (bmeshes g)"
        by simp_all
      show ?thesis
        by (rule exI [of _ b]) (simp add: d l lt key Some cached_same [OF e])
    qed
  qed
qed

lemma cmo_lookup:
  assumes c: "create_mesh_object g vn = Inr (g', ob)"
    and pn: "py_index_opt (nodes g) (mesh_node_idx vn) = Inr pn"
    and m: "mesh pn = Some m" "0 \<le> m" "m < int (length (meshes g))"
    and d: "obj_data (objects g' ! ob) = MeshData bm"
  shows "(\<exists>k. cache_key_of (meshes g ! nat m) pn = Some k \<and> cached g (nat m) k = Some bm) \<or>
         bm = length (bmeshes g)"
proof -
  note x = cmo_cache [OF c pn m]
  show ?thesis
  proof (cases "cache_key_of (meshes g ! nat m) pn")
    case None
    with x d show ?thesis by simp
  next
    case (Some k)
    note key = this
    show ?thesis
    proof (cases "cached g (nat m) k")
      case None
      with key x d show ?thesis by simp
    next
      case (Some b)
      with key x d show ?thesis by simp
    qed
  qed
qed

text \<open>
  C8, as stated, fails in its last part: without shape keys the key is the skin alone,
  whatever the weight animation. Nodes 0 and 2 of the sample have weight animation and
  instantiate mesh 0, which has no shape keys; the second object gets the Blender mesh of
  the first and one Blender mesh is made.
\<close>

theorem weight_animation_cached_counterexample:
  "weight_animation (nodes gltf_cache ! 0) \<and> weight_animation (nodes gltf_cache ! 2) \<and>
   mesh_objects gltf_cache [0, 2] [] = Inr ([MeshData 0, MeshData 0], 1)"
  by (simp add: gltf_cache_def gltf0_def host0_def vnode0_def pynode0_def pymesh0_def
      create_mesh_object_def mesh_for_def cache_key_of_def objects_new_def new_obj_def
      get_bmesh_def py_index_opt_def py_index_def name_or_def Let_def)

text \<open>
  C8, amended. Every glTF mesh has its own cache of Blender meshes. The key of a node is
  the skin alone when the glTF mesh has no shape keys (with or without weight animation),
  the skin and the weights when it has shape keys and the node has no weight animation, and
  there is no key when it has shape keys and the node has weight animation; the key of a
  node does not change during the import. Take a state with consistent caches, a mesh object
  made for a first node, any calls of \<open>create_vnode\<close>, \<open>create_object\<close> and
  \<open>create_mesh_object\<close> after it, and then a mesh object made for a second node. The two
  objects are different, and they have the same Blender mesh exactly when the nodes
  instantiate the same glTF mesh and have the same key. The second creation takes the cache
  entry of its key when there is one, making no mesh and leaving the caches as they are;
  else it makes a new Blender mesh, and enters it into the cache of its glTF mesh under its
  key, changing no other entry, when it has a key, and leaves the caches as they are when
  it has none.
\<close>

theorem mesh_cache_keyed:
  assumes ok: "cache_ok g"
    and n1: "py_index_opt (nodes g) (mesh_node_idx vn1) = Inr pn1"
    and m1: "mesh pn1 = Some m1" "0 \<le> m1" "m1 < int (length (meshes g))"
    and c1: "create_mesh_object g vn1 = Inr (g1, o1)"
    and r: "run g1 g1'"
    and n2: "py_index_opt (nodes g) (mesh_node_idx vn2) = Inr pn2"
    and m2: "mesh pn2 = Some m2" "0 \<le> m2" "m2 < int (length (meshes g))"
    and c2: "create_mesh_object g1' vn2 = Inr (g2, o2)"
  shows "cache_key_of (meshes g ! nat m1) pn1 =
           (if shapekey_names (meshes g ! nat m1) = [] then Some (KeySkin (skin pn1))
            else if \<not> weight_animation pn1
                 then Some (KeySkinWeights (skin pn1) (list_or (weights pn1) []))
            else None)
         \<and> cache_key_of (meshes g1' ! nat m2) pn2 = cache_key_of (meshes g ! nat m2) pn2
         \<and> o1 \<noteq> o2
         \<and> (obj_data (objects g2 ! o2) = obj_data (objects g2 ! o1) \<longleftrightarrow>
              m2 = m1 \<and> cache_key_of (meshes g ! nat m1) pn1 \<noteq> None \<and>
              cache_key_of (meshes g ! nat m2) pn2 = cache_key_of (meshes g ! nat m1) pn1)
         \<and> (case cache_key_of (meshes g ! nat m2) pn2 of
              None \<Rightarrow> obj_data (objects g2 ! o2) = MeshData (length (bmeshes g1')) \<and>
                      length (bmeshes g2) = Suc (length (bmeshes g1')) \<and> meshes g2 = meshes g1'
            | Some k \<Rightarrow>
                (case cached g1' (nat m2) k of
                   Some b \<Rightarrow> obj_data (objects g2 ! o2) = MeshData b \<and>
                             length (bmeshes g2) = length (bmeshes g1') \<and> meshes g2 = meshes g1'
                 | None \<Rightarrow> obj_data (objects g2 ! o2) = MeshData (length (bmeshes g1')) \<and>
                           length (bmeshes g2) = Suc (length (bmeshes g1')) \<and>
                           (\<forall>i k'. cached g2 i k' =
                              (if i = nat m2 \<and> k' = k then Some (length (bmeshes g1'))
                               else cached g1' i k'))))"
proof -
  have G1: "grows g g1" by (rule create_mesh_object_grows [OF ok c1])
  have G2: "grows g1 g1'" by (rule run_grows [OF r grows_ok [OF G1]])
  have G: "grows g g1'" by (rule grows_trans [OF G1 G2])
  have ok': "cache_ok g1'" by (rule grows_ok [OF G2])
  have G3: "grows g1' g2" by (rule create_mesh_object_grows [OF ok' c2])
  have lt1: "nat m1 < length (meshes g)" using m1(2,3) by linarith
  have lt2: "nat m2 < length (meshes g)" using m2(2,3) by linarith
  have n2': "py_index_opt (nodes g1') (mesh_node_idx vn2) = Inr pn2"
    using n2 by (simp add: growsD(1) [OF G])
  have m2': "m2 < int (length (meshes g1'))" using m2(3) by (simp add: growsD(2) [OF G])
  have K2: "cache_key_of (meshes g1' ! nat m2) pn2 = cache_key_of (meshes g ! nat m2) pn2"
    by (rule cache_key_of_cong) (rule growsD(3) [OF G lt2])
  note A = cmo_cache [OF c1 n1 m1]
  note B = cmo_cache [OF c2 n2' m2(1,2) m2', unfolded K2]
  have o1: "o1 = length (objects g)" and l1: "length (objects g1) = Suc (length (objects g))"
    using A by simp_all
  have o2: "o2 = length (objects g1')" using B by simp
  have o1lt: "o1 < length (objects g1)" by (simp add: o1 l1)
  have o1lt': "o1 < length (objects g1')" using o1lt growsD(5) [OF G2] by simp
  have ne: "o1 \<noteq> o2" using o1lt' o2 by simp
  from cmo_entry [OF c1 n1 m1] obtain bm1 where d1: "obj_data (objects g1 ! o1) = MeshData bm1"
    and b1: "bm1 < length (bmeshes g1)"
    and e1': "\<forall>k. cache_key_of (meshes g ! nat m1) pn1 = Some k \<longrightarrow>
               cached g1 (nat m1) k = Some bm1"
    and f1': "cache_key_of (meshes g ! nat m1) pn1 = None \<longrightarrow>
               bm1 = length (bmeshes g) \<and> cached g1 = cached g"
    by (elim exE conjE)
  note e1 = e1' [rule_format] and f1 = f1' [rule_format]
  have d1': "obj_data (objects g2 ! o1) = MeshData bm1"
    using growsD(6) [OF G3 o1lt'] growsD(6) [OF G2 o1lt] d1 by simp
  from cmo_entry [OF c2 n2' m2(1,2) m2'] obtain bm2 where
    d2: "obj_data (objects g2 ! o2) = MeshData bm2"
    by (elim exE conjE)
  note L = cmo_lookup [OF c2 n2' m2(1,2) m2' d2, unfolded K2]
  have b1': "bm1 < length (bmeshes g1')" using b1 growsD(4) [OF G2] by simp
  have share: "bm2 = bm1 \<longleftrightarrow>
              m2 = m1 \<and> cache_key_of (meshes g ! nat m1) pn1 \<noteq> None \<and>
              cache_key_of (meshes g ! nat m2) pn2 = cache_key_of (meshes g ! nat m1) pn1"
  proof
    assume s: "m2 = m1 \<and> cache_key_of (meshes g ! nat m1) pn1 \<noteq> None \<and>
              cache_key_of (meshes g ! nat m2) pn2 = cache_key_of (meshes g ! nat m1) pn1"
    then obtain k where k1: "cache_key_of (meshes g ! nat m1) pn1 = Some k" by auto
    from s have mm: "m2 = m1" by (rule conjunct1)
    from s k1 have k2: "cache_key_of (meshes g ! nat m2) pn2 = Some k" by auto
    have "cached g1' (nat m1) k = Some bm1" by (rule growsD(7) [OF G2 e1 [OF k1]])
    with B k2 mm d2 show "bm2 = bm1" by auto
  next
    assume eq: "bm2 = bm1"
    from L eq b1' obtain k2 where k2: "cache_key_of (meshes g ! nat m2) pn2 = Some k2"
      and h2: "cached g1' (nat m2) k2 = Some bm1"
      by auto
    show "m2 = m1 \<and> cache_key_of (meshes g ! nat m1) pn1 \<noteq> None \<and>
              cache_key_of (meshes g ! nat m2) pn2 = cache_key_of (meshes g ! nat m1) pn1"
    proof (cases "cache_key_of (meshes g ! nat m1) pn1")
      case None
      from f1 [OF None] have bl: "bm1 = length (bmeshes g)" and cg: "cached g1 = cached g"
        by simp_all
      from growsD(8) [OF G2 h2] b1 have "cached g1 (nat m2) k2 = Some bm1" by auto
      then have "cached g (nat m2) k2 = Some bm1" by (simp add: cg)
      from cache_okD(1) [OF ok this] bl have False by simp
      then show ?thesis ..
    next
      case (Some k1)
      have "cached g1' (nat m1) k1 = Some bm1" by (rule growsD(7) [OF G2 e1 [OF Some]])
      from cache_okD(2) [OF ok' h2 this] have "nat m2 = nat m1" "k2 = k1" by simp_all
      with m1(2) m2(2) have "m2 = m1" by simp
      with Some k2 \<open>k2 = k1\<close> show ?thesis by simp
    qed
  qed
  have p1: "cache_key_of (meshes g ! nat m1) pn1 =
           (if shapekey_names (meshes g ! nat m1) = [] then Some (KeySkin (skin pn1))
            else if \<not> weight_animation pn1
                 then Some (KeySkinWeights (skin pn1) (list_or (weights pn1) []))
            else None)"
    by (simp add: cache_key_of_def)
  have p4: "obj_data (objects g2 ! o2) = obj_data (objects g2 ! o1) \<longleftrightarrow>
              m2 = m1 \<and> cache_key_of (meshes g ! nat m1) pn1 \<noteq> None \<and>
              cache_key_of (meshes g ! nat m2) pn2 = cache_key_of (meshes g ! nat m1) pn1"
    unfolding d2 d1' obj_data.inject by (rule share)
  have p5: "case cache_key_of (meshes g ! nat m2) pn2 of
              None \<Rightarrow> obj_data (objects g2 ! o2) = MeshData (length (bmeshes g1')) \<and>
                      length (bmeshes g2) = Suc (length (bmeshes g1')) \<and> meshes g2 = meshes g1'
            | Some k \<Rightarrow>
                (case cached g1' (nat m2) k of
                   Some b \<Rightarrow> obj_data (objects g2 ! o2) = MeshData b \<and>
                             length (bmeshes g2) = length (bmeshes g1') \<and> meshes g2 = meshes g1'
                 | None \<Rightarrow> obj_data (objects g2 ! o2) = MeshData (length (bmeshes g1')) \<and>
                           length (bmeshes g2) = Suc (length (bmeshes g1')) \<and>
                           (\<forall>i k'. cached g2 i k' =
                              (if i = nat m2 \<and> k' = k then Some (length (bmeshes g1'))
                               else cached g1' i k')))"
  proof (cases "cache_key_of (meshes g ! nat m2) pn2")
    case None
    with conjunct2 [OF conjunct2 [OF B]] show ?thesis by simp
  next
    case (Some k)
    note key = this
    show ?thesis
    proof (cases "cached g1' (nat m2) k")
      case None
      with key conjunct2 [OF conjunct2 [OF B]] show ?thesis by simp
    next
      case (Some b)
      with key conjunct2 [OF conjunct2 [OF B]] show ?thesis by simp
    qed
  qed
  show ?thesis
    apply (intro conjI)
        apply (rule p1)
       apply (rule K2)
      apply (rule ne)
     apply (rule p4)
    apply (rule p5)
    done
qed

lemma cache_ok_sample: "cache_ok gltf_cache"
proof -
  have "cached gltf_cache i k = None" for i k
    by (auto simp: cached_def gltf_cache_def gltf0_def pymesh0_def numeral_2_eq_2 less_Suc_eq)
  then show ?thesis by (simp add: cache_ok_def)
qed

lemma ex_three_mesh_objects:
  "\<exists>g1 o1 g1' o' g2 o2.
     create_mesh_object gltf_cache (vnode0\<lparr>mesh_node_idx := Some 1\<rparr>) = Inr (g1, o1) \<and>
     create_mesh_object g1 (vnode0\<lparr>mesh_node_idx := Some 3\<rparr>) = Inr (g1', o') \<and>
     create_mesh_object g1' (vnode0\<lparr>mesh_node_idx := Some 4\<rparr>) = Inr (g2, o2)"
  by (simp add: gltf_cache_def gltf0_def host0_def vnode0_def pynode0_def pymesh0_def
      create_mesh_object_def mesh_for_def cache_key_of_def objects_new_def new_obj_def
      get_bmesh_def get_obj_def py_index_opt_def py_index_def name_or_def list_or_def
      set_morph_weights_def set_kb_def Let_def)

text \<open>
  The amended C8 on the sample: nodes 1, 3 and 4 instantiate mesh 1, which has a shape key,
  with the weights \<open>[1]\<close>, \<open>[1/2]\<close> and \<open>[1]\<close>. The object of node 3 has not the Blender mesh
  of the object of node 1, and the object of node 4, made after it, has.
\<close>

theorem mesh_cache_keyed_witness:
  "cache_ok gltf_cache \<and>
   (\<exists>g1 o1 g1' o' g2 o2.
     create_mesh_object gltf_cache (vnode0\<lparr>mesh_node_idx := Some 1\<rparr>) = Inr (g1, o1) \<and>
     create_mesh_object g1 (vnode0\<lparr>mesh_node_idx := Some 3\<rparr>) = Inr (g1', o') \<and>
     create_mesh_object g1' (vnode0\<lparr>mesh_node_idx := Some 4\<rparr>) = Inr (g2, o2) \<and>
     run g1 g1' \<and>
     obj_data (objects g1' ! o') \<noteq> obj_data (objects g1' ! o1) \<and>
     obj_data (objects g2 ! o2) = obj_data (objects g2 ! o1))"
proof -
  from ex_three_mesh_objects obtain g1 o1 g1' o' g2 o2 where
    c1: "create_mesh_object gltf_cache (vnode0\<lparr>mesh_node_idx := Some 1\<rparr>) = Inr (g1, o1)"
    and c': "create_mesh_object g1 (vnode0\<lparr>mesh_node_idx := Some 3\<rparr>) = Inr (g1', o')"
    and c2: "create_mesh_object g1' (vnode0\<lparr>mesh_node_idx := Some 4\<rparr>) = Inr (g2, o2)"
    by blast
  let ?p1 = "pynode0\<lparr>mesh := Some 1, weights := Some [1]\<rparr>"
  let ?p3 = "pynode0\<lparr>mesh := Some 1, weights := Some [1 / 2]\<rparr>"
  have n1: "py_index_opt (nodes gltf_cache) (mesh_node_idx (vnode0\<lparr>mesh_node_idx := Some 1\<rparr>))
              = Inr ?p1"
    and n3: "py_index_opt (nodes gltf_cache) (mesh_node_idx (vnode0\<lparr>mesh_node_idx := Some 3\<rparr>))
              = Inr ?p3"
    and n4: "py_index_opt (nodes gltf_cache) (mesh_node_idx (vnode0\<lparr>mesh_node_idx := Some 4\<rparr>))
              = Inr ?p1"
    by (simp_all add: gltf_cache_def gltf0_def py_index_opt_def py_index_def)
  have m: "mesh ?p1 = Some 1" "mesh ?p3 = Some 1" "(0::int) \<le> 1"
    "1 < int (length (meshes gltf_cache))"
    by (simp_all add: gltf_cache_def)
  have k: "cache_key_of (meshes gltf_cache ! Suc 0) ?p1 = Some (KeySkinWeights None [1])"
    "cache_key_of (meshes gltf_cache ! Suc 0) ?p3 = Some (KeySkinWeights None [1 / 2])"
    by (simp_all add: gltf_cache_def pymesh0_def pynode0_def cache_key_of_def list_or_def)
  have r0: "run g1 g1" by (rule run_refl)
  have r: "run g1 g1'" by (rule run_mesh_object [OF run_refl c'])
  have a: "obj_data (objects g1' ! o') \<noteq> obj_data (objects g1' ! o1)"
    using mesh_cache_keyed [OF cache_ok_sample n1 m(1,3,4) c1 r0 n3 m(2,3,4) c']
    by (simp add: k)
  have b: "obj_data (objects g2 ! o2) = obj_data (objects g2 ! o1)"
    using mesh_cache_keyed [OF cache_ok_sample n1 m(1,3,4) c1 r n4 m(1,3,4) c2]
    by (simp add: k)
  show ?thesis
    apply (rule conjI)
     apply (rule cache_ok_sample)
    apply (rule exI [of _ g1])
    apply (rule exI [of _ o1])
    apply (rule exI [of _ g1'])
    apply (rule exI [of _ o'])
    apply (rule exI [of _ g2])
    apply (rule exI [of _ o2])
    apply (intro conjI)
         apply (rule c1)
        apply (rule c')
       apply (rule c2)
      apply (rule r)
     apply (rule a)
    apply (rule b)
    done
qed

end
